theory Spec2Isabelle
  imports Main
begin

section \<open>The plugin pipeline of beet (src/beet/toolchain/pipeline.py)\<close>

subsection \<open>Plugins, plugin specs and exceptions\<close>

text \<open>
  A plugin is a Python callable. The engine only ever uses its identity (membership in the
  set \<open>plugins\<close>) and calls it; the identity is a number here, and what calling it does is
  given by a table \<open>impl\<close> that every operation takes as a parameter. The callables
  of the model are hashable: the membership test of line 118 cannot raise.
  A \<open>GenericPluginSpec\<close> is a callable or a \<open>str\<close>.
\<close>

type_synonym plugin = nat

datatype spec = Callable plugin | Dotted string

text \<open>
  The exceptions the file distinguishes: \<open>StopIteration\<close>, instances of
  \<open>BubbleException\<close>, its own two wrappers (their argument and their \<open>__cause__\<close>), and
  every other \<open>Exception\<close>.
\<close>

datatype exn =
    StopIteration
  | BubbleException string
  | Exception string
  | PluginError plugin exn
  | PluginImportError spec exn

text \<open>
  Modelled from the spec: the class hierarchy of \<open>beet.core.error\<close>, which is not part of
  the source at hand. \<open>PluginError\<close> and \<open>PluginImportError\<close> derive from
  \<open>WrappedException\<close>; the spec has both "wrapped exactly once, at the point of origin,
  then propagate unchanged through every subsequent layer", so \<open>WrappedException\<close> is a
  \<open>BubbleException\<close>.
\<close>

fun isinstance_BubbleException :: "exn \<Rightarrow> bool" where
  "isinstance_BubbleException (BubbleException _) = True"
| "isinstance_BubbleException (PluginError _ _) = True"
| "isinstance_BubbleException (PluginImportError _ _) = True"
| "isinstance_BubbleException _ = False"

text \<open>
  Modelled from the spec: \<open>pop_traceback\<close> of \<open>beet.core.utils\<close> strips the stack-trace
  framing of the exception and returns the exception.
\<close>

definition pop_traceback :: "exn \<Rightarrow> exn" where
  "pop_traceback exc = exc"

subsection \<open>What plugin code can do\<close>

text \<open>
  Plugin code is opaque to the engine. Its observable behaviour is a tree of actions: it
  reads and updates the shared context, it calls back into \<open>require\<close> of the engine that
  runs it (through the context) and goes on with what that call raised, it raises, or it
  is done with a value. The trees are coinductive: plugin code need not terminate.
\<close>

codatatype ('c, 'a) prog =
    Act "'c \<Rightarrow> 'c \<times> ('c, 'a) prog"
  | Require "spec list" "exn option \<Rightarrow> ('c, 'a) prog"
  | Raise exn
  | Done 'a

text \<open>
  A suspended iterator is resumed by \<open>next\<close> (\<open>None\<close>) or, if it is a generator, by
  \<open>throw\<close> (\<open>Some exc\<close>); it then runs until it raises (\<open>StopIteration\<close> when it is
  exhausted) or yields, which leaves it suspended again.
\<close>

codatatype 'c frame = Frame "exn option \<Rightarrow> ('c, 'c frame) prog"

text \<open>
  The value of \<open>self.iterator\<close> once it is set: an iterator that can still be resumed, or
  one that has raised; the flag is \<open>isinstance(self.iterator, Generator)\<close>.
\<close>

datatype 'c iterator = Live bool "'c frame" | Closed bool

text \<open>What \<open>self.plugin(ctx)\<close> returns: the flag says whether \<open>iter(result)\<close> is a generator.\<close>

datatype 'c result = NotIterable | Iterable bool "'c frame"

definition iter :: "'c result \<Rightarrow> 'c iterator" where
  "iter result =
     (case result of
        Iterable g f \<Rightarrow> Live g f
      | NotIterable \<Rightarrow> Live False (Frame (\<lambda>_. Raise StopIteration)))"

subsection \<open>Tasks and the engine state\<close>

record 'c Task =
  plugin :: plugin
  iterator :: "'c iterator option"

datatype status = Unstarted | Suspended | Finished

definition status :: "'c Task \<Rightarrow> status" where
  "status t =
     (case iterator t of
        None \<Rightarrow> Unstarted
      | Some (Live _ _) \<Rightarrow> Suspended
      | Some (Closed _) \<Rightarrow> Finished)"

text \<open>
  \<open>trace\<close> is a ghost field: it records every call of \<open>advance\<close> with the status the task
  had on entry, and every call \<open>self.plugin(ctx)\<close>. No operation reads it.
\<close>

datatype event = Stepped plugin status | Called plugin

record 'c GenericPipeline =
  ctx :: 'c
  default_symbol :: string
  whitelist :: "string list option"
  plugins :: "plugin set"
  tasks :: "'c Task list"
  trace :: "event list"

definition new_pipeline :: "'c \<Rightarrow> 'c GenericPipeline" where
  "new_pipeline c =
     \<lparr>ctx = c, default_symbol = ''beet_default'', whitelist = None,
      plugins = {}, tasks = [], trace = []\<rparr>"

definition record_event :: "event \<Rightarrow> 'c GenericPipeline \<Rightarrow> 'c GenericPipeline" where
  "record_event ev s = s\<lparr>trace := trace s @ [ev]\<rparr>"

fun calls :: "event list \<Rightarrow> plugin list" where
  "calls [] = []"
| "calls (Called p # evs) = p # calls evs"
| "calls (Stepped _ _ # evs) = calls evs"

subsection \<open>Running plugin code\<close>

text \<open>
  \<open>exec\<close> runs plugin code on the engine state; \<open>req\<close> is the \<open>require\<close> the code reaches
  through the context. Plugin code may run forever: the first argument bounds the number
  of actions, and \<open>None\<close> says that the bound was reached.
\<close>

fun exec ::
  "nat \<Rightarrow> (spec list \<Rightarrow> 'c GenericPipeline \<Rightarrow> (exn option \<times> 'c GenericPipeline) option) \<Rightarrow>
   ('c, 'a) prog \<Rightarrow> 'c GenericPipeline \<Rightarrow> ((exn + 'a) \<times> 'c GenericPipeline) option" where
  "exec 0 req p s = None"
| "exec (Suc n) req p s =
     (case p of
        Act f \<Rightarrow> (case f (ctx s) of (c, p') \<Rightarrow> exec n req p' (s\<lparr>ctx := c\<rparr>))
      | Require specs k \<Rightarrow>
          (case req specs s of
             None \<Rightarrow> None
           | Some (r, s') \<Rightarrow> exec n req (k r) s')
      | Raise exc \<Rightarrow> Some (Inl exc, s)
      | Done a \<Rightarrow> Some (Inr a, s))"

subsection \<open>Task.advance\<close>

text \<open>Lines 83 to 87: the first step calls the plugin and sets \<open>self.iterator\<close>.\<close>

definition start ::
  "nat \<Rightarrow> (spec list \<Rightarrow> 'c GenericPipeline \<Rightarrow> (exn option \<times> 'c GenericPipeline) option) \<Rightarrow>
   (plugin \<Rightarrow> ('c, 'c result) prog) \<Rightarrow> 'c Task \<Rightarrow> 'c GenericPipeline \<Rightarrow>
   ((exn + unit) \<times> 'c Task \<times> 'c GenericPipeline) option" where
  "start fuel req impl self s =
     (case iterator self of
        Some _ \<Rightarrow> Some (Inr (), self, s)
      | None \<Rightarrow>
          (case exec fuel req (impl (plugin self)) (record_event (Called (plugin self)) s) of
             None \<Rightarrow> None
           | Some (Inl exc, s') \<Rightarrow> Some (Inl exc, self, s')
           | Some (Inr result, s') \<Rightarrow>
               Some (Inr (), self\<lparr>iterator := Some (iter result)\<rparr>, s')))"

text \<open>
  \<open>next(self.iterator)\<close> and \<open>self.iterator.throw(exception)\<close>: a closed iterator raises
  \<open>StopIteration\<close> on \<open>next\<close> and the exception thrown into it on \<open>throw\<close>.
  (\<open>next(None)\<close> raises a \<open>TypeError\<close>; \<open>advance\<close> never gets there.)
\<close>

definition resume ::
  "nat \<Rightarrow> (spec list \<Rightarrow> 'c GenericPipeline \<Rightarrow> (exn option \<times> 'c GenericPipeline) option) \<Rightarrow>
   'c Task \<Rightarrow> exn option \<Rightarrow> 'c GenericPipeline \<Rightarrow>
   ((exn + unit) \<times> 'c Task \<times> 'c GenericPipeline) option" where
  "resume fuel req self exception s =
     (case iterator self of
        None \<Rightarrow> Some (Inl (Exception ''TypeError''), self, s)
      | Some (Closed g) \<Rightarrow>
          Some (Inl (case exception of None \<Rightarrow> StopIteration | Some exc \<Rightarrow> exc), self, s)
      | Some (Live g (Frame k)) \<Rightarrow>
          (case exec fuel req (k exception) s of
             None \<Rightarrow> None
           | Some (Inl exc, s') \<Rightarrow> Some (Inl exc, self\<lparr>iterator := Some (Closed g)\<rparr>, s')
           | Some (Inr f, s') \<Rightarrow> Some (Inr (), self\<lparr>iterator := Some (Live g f)\<rparr>, s')))"

definition isinstance_Generator :: "'c iterator option \<Rightarrow> bool" where
  "isinstance_Generator it =
     (case it of None \<Rightarrow> False | Some (Live g _) \<Rightarrow> g | Some (Closed g) \<Rightarrow> g)"

text \<open>Lines 88 to 93.\<close>

definition step ::
  "nat \<Rightarrow> (spec list \<Rightarrow> 'c GenericPipeline \<Rightarrow> (exn option \<times> 'c GenericPipeline) option) \<Rightarrow>
   'c Task \<Rightarrow> exn option \<Rightarrow> 'c GenericPipeline \<Rightarrow>
   ((exn + unit) \<times> 'c Task \<times> 'c GenericPipeline) option" where
  "step fuel req self exception s =
     (case exception of
        None \<Rightarrow> resume fuel req self None s
      | Some exc \<Rightarrow>
          if isinstance_Generator (iterator self) then resume fuel req self (Some exc) s
          else Some (Inl exc, self, s))"

text \<open>
  The \<open>except\<close> clauses, lines 94 to 100, in their order. The result is \<open>Inl\<close> of what
  \<open>advance\<close> raises, or \<open>Inr\<close> of whether it returns \<open>self\<close> (and not \<open>None\<close>).
\<close>

definition handlers :: "plugin \<Rightarrow> exn + unit \<Rightarrow> exn + bool" where
  "handlers p r =
     (case r of
        Inr _ \<Rightarrow> Inr True
      | Inl exc \<Rightarrow>
          if exc = StopIteration then Inr False
          else if isinstance_BubbleException exc then Inl exc
          else Inl (PluginError p (pop_traceback exc)))"

text \<open>
  \<open>advance\<close> returns its result, the task as the call leaves it (the call updates
  \<open>self.iterator\<close> in place) and the engine state as the plugin code leaves it.
\<close>

definition advance ::
  "nat \<Rightarrow> (spec list \<Rightarrow> 'c GenericPipeline \<Rightarrow> (exn option \<times> 'c GenericPipeline) option) \<Rightarrow>
   (plugin \<Rightarrow> ('c, 'c result) prog) \<Rightarrow> 'c Task \<Rightarrow> exn option \<Rightarrow> 'c GenericPipeline \<Rightarrow>
   ((exn + bool) \<times> 'c Task \<times> 'c GenericPipeline) option" where
  "advance fuel req impl self exception s =
     (case start fuel req impl self (record_event (Stepped (plugin self) (status self)) s) of
        None \<Rightarrow> None
      | Some (Inl exc, self', s') \<Rightarrow> Some (handlers (plugin self) (Inl exc), self', s')
      | Some (Inr _, self', s') \<Rightarrow>
          (case step fuel req self' exception s' of
             None \<Rightarrow> None
           | Some (r, self'', s'') \<Rightarrow> Some (handlers (plugin self) r, self'', s'')))"

subsection \<open>GenericPipeline\<close>

text \<open>
  \<open>import_from_string\<close> of \<open>beet.core.utils\<close> is the external lookup: a parameter \<open>imp\<close>
  that takes the dotted path, the default member and the whitelist, and returns the
  callable or what it raises.
\<close>

type_synonym importer = "string \<Rightarrow> string \<Rightarrow> string list option \<Rightarrow> exn + plugin"

definition resolve :: "importer \<Rightarrow> 'c GenericPipeline \<Rightarrow> spec \<Rightarrow> exn + plugin" where
  "resolve imp s sp =
     (case sp of
        Callable p \<Rightarrow> Inr p
      | Dotted path \<Rightarrow>
          (case imp path (default_symbol s) (whitelist s) of
             Inr p \<Rightarrow> Inr p
           | Inl exc \<Rightarrow>
               if isinstance_BubbleException exc then Inl exc
               else Inl (PluginImportError sp exc)))"

text \<open>
  The loop of \<open>require\<close>, with the \<open>advance\<close> of a new task as a parameter. The result is
  the exception the call raises, if any, and the state it leaves.
\<close>

fun require_loop ::
  "('c Task \<Rightarrow> exn option \<Rightarrow> 'c GenericPipeline \<Rightarrow>
      ((exn + bool) \<times> 'c Task \<times> 'c GenericPipeline) option) \<Rightarrow>
   importer \<Rightarrow> spec list \<Rightarrow> 'c GenericPipeline \<Rightarrow> (exn option \<times> 'c GenericPipeline) option" where
  "require_loop adv imp [] s = Some (None, s)"
| "require_loop adv imp (sp # args) s =
     (case resolve imp s sp of
        Inl exc \<Rightarrow> Some (Some exc, s)
      | Inr p \<Rightarrow>
          if p \<in> plugins s then require_loop adv imp args s
          else
            (case adv \<lparr>plugin = p, iterator = None\<rparr> None (s\<lparr>plugins := insert p (plugins s)\<rparr>) of
               None \<Rightarrow> None
             | Some (Inl exc, _, s') \<Rightarrow> Some (Some exc, s')
             | Some (Inr remaining_work, self', s') \<Rightarrow>
                 require_loop adv imp args
                   (if remaining_work then s'\<lparr>tasks := tasks s' @ [self']\<rparr> else s')))"

text \<open>
  \<open>require\<close>: plugin code that runs inside it may call it again. The first argument bounds
  the depth of these nested calls and the number of actions of each piece of plugin code.
\<close>

primrec require ::
  "nat \<Rightarrow> importer \<Rightarrow> (plugin \<Rightarrow> ('c, 'c result) prog) \<Rightarrow>
   spec list \<Rightarrow> 'c GenericPipeline \<Rightarrow> (exn option \<times> 'c GenericPipeline) option" where
  "require 0 imp impl = (\<lambda>args s. None)"
| "require (Suc n) imp impl = require_loop (advance n (require n imp impl) impl) imp"

text \<open>The \<open>while self.tasks\<close> loop of \<open>run\<close>, lines 152 to 159, and its last two lines.\<close>

fun drain ::
  "nat \<Rightarrow> importer \<Rightarrow> (plugin \<Rightarrow> ('c, 'c result) prog) \<Rightarrow>
   exn option \<Rightarrow> 'c GenericPipeline \<Rightarrow> (exn option \<times> 'c GenericPipeline) option" where
  "drain 0 imp impl exception s = (if tasks s = [] then Some (exception, s) else None)"
| "drain (Suc n) imp impl exception s =
     (if tasks s = [] then Some (exception, s)
      else
        (case advance n (require n imp impl) impl (last (tasks s)) exception
                (s\<lparr>tasks := butlast (tasks s)\<rparr>) of
           None \<Rightarrow> None
         | Some (Inl exc, _, s') \<Rightarrow> drain n imp impl (Some exc) s'
         | Some (Inr remaining_work, self', s') \<Rightarrow>
             drain n imp impl None
               (if remaining_work then s'\<lparr>tasks := tasks s' @ [self']\<rparr> else s')))"

definition run ::
  "nat \<Rightarrow> importer \<Rightarrow> (plugin \<Rightarrow> ('c, 'c result) prog) \<Rightarrow>
   spec list \<Rightarrow> 'c GenericPipeline \<Rightarrow> (exn option \<times> 'c GenericPipeline) option" where
  "run fuel imp impl specs s =
     (case require fuel imp impl specs s of
        None \<Rightarrow> None
      | Some (exception, s') \<Rightarrow> drain fuel imp impl exception s')"

subsection \<open>Invariants of the engine state\<close>

text \<open>The status of the task on entry of each call of \<open>advance\<close>, in order.\<close>

fun stepped :: "event list \<Rightarrow> status list" where
  "stepped [] = []"
| "stepped (Stepped _ st # evs) = st # stepped evs"
| "stepped (Called _ # evs) = stepped evs"

text \<open>
  No plugin was called twice, every called plugin is in \<open>plugins\<close>, every task on the
  stack is suspended, and no call of \<open>advance\<close> was on a finished task.
\<close>

definition sound :: "'c GenericPipeline \<Rightarrow> bool" where
  "sound s \<longleftrightarrow>
     distinct (calls (trace s)) \<and> set (calls (trace s)) \<subseteq> plugins s \<and>
     (\<forall>t \<in> set (tasks s). status t = Suspended) \<and> Finished \<notin> set (stepped (trace s))"

text \<open>What a call leaves alone or only adds to: the configuration, \<open>plugins\<close>, the trace.\<close>

definition extends :: "'c GenericPipeline \<Rightarrow> 'c GenericPipeline \<Rightarrow> bool" where
  "extends s s' \<longleftrightarrow>
     default_symbol s' = default_symbol s \<and> whitelist s' = whitelist s \<and>
     plugins s \<subseteq> plugins s' \<and> (\<exists>evs. trace s' = trace s @ evs)"

subsection \<open>Plugins and importers used as examples\<close>

text \<open>An importer that finds nothing.\<close>

definition no_import :: importer where
  "no_import path member allowed = Inl (Exception ''ModuleNotFoundError'')"

text \<open>Plugin B of the end-to-end example: it appends \<open>"B"\<close> to the log and returns.\<close>

definition plugin_B :: "(string list, string list result) prog" where
  "plugin_B = Act (\<lambda>log. (log @ [''B''], Done NotIterable))"

text \<open>The iterator of a list of one element: it is no generator, and it yields once.\<close>

definition one_item :: "'c frame" where
  "one_item = Frame (\<lambda>_. Done (Frame (\<lambda>_. Raise StopIteration)))"

text \<open>
  What leaves a generator when an exception is raised in its body and not caught there,
  be it thrown in or raised by the body itself: the exception, except that Python turns a
  \<open>StopIteration\<close> that would leave the body into a \<open>RuntimeError\<close>.
\<close>

definition uncaught :: "exn \<Rightarrow> ('c, 'a) prog" where
  "uncaught exc = (if exc = StopIteration then Raise (Exception ''RuntimeError'') else Raise exc)"

text \<open>
  A generator function with two phases and one \<^verbatim>\<open>yield\<close> between them, and no
  \<^verbatim>\<open>try\<close>: \<^verbatim>\<open>def plugin(ctx): a(ctx); yield; b(ctx)\<close>
\<close>

definition after_yield :: "('c \<Rightarrow> 'c) \<Rightarrow> 'c frame" where
  "after_yield b =
     Frame (\<lambda>r. case r of
        Some exc \<Rightarrow> uncaught exc
      | None \<Rightarrow> Act (\<lambda>c. (b c, Raise StopIteration)))"

definition two_phase :: "('c \<Rightarrow> 'c) \<Rightarrow> ('c \<Rightarrow> 'c) \<Rightarrow> ('c, 'c result) prog" where
  "two_phase a b =
     Done (Iterable True (Frame (\<lambda>r. case r of
        Some exc \<Rightarrow> uncaught exc
      | None \<Rightarrow> Act (\<lambda>c. (a c, Done (after_yield b))))))"

text \<open>
  A generator function that yields once and cleans up in a \<^verbatim>\<open>finally\<close>:
  \<^verbatim>\<open>def plugin(ctx): try: yield; finally: f(ctx)\<close>
\<close>

definition after_guarded_yield :: "('c \<Rightarrow> 'c) \<Rightarrow> 'c frame" where
  "after_guarded_yield f =
     Frame (\<lambda>r. case r of
        Some exc \<Rightarrow> Act (\<lambda>c. (f c, uncaught exc))
      | None \<Rightarrow> Act (\<lambda>c. (f c, Raise StopIteration)))"

definition guarded :: "('c \<Rightarrow> 'c) \<Rightarrow> ('c, 'c result) prog" where
  "guarded f =
     Done (Iterable True (Frame (\<lambda>r. case r of
        Some exc \<Rightarrow> uncaught exc
      | None \<Rightarrow> Done (after_guarded_yield f))))"

text \<open>
  A generator function that yields once and raises when it is resumed:
  \<^verbatim>\<open>def plugin(ctx): yield; raise exc\<close>
\<close>

definition failing_late :: "exn \<Rightarrow> ('c, 'c result) prog" where
  "failing_late exc =
     Done (Iterable True (Frame (\<lambda>r. case r of
        Some e \<Rightarrow> uncaught e
      | None \<Rightarrow> Done (Frame (\<lambda>r. case r of
            Some e \<Rightarrow> uncaught e
          | None \<Rightarrow> uncaught exc)))))"

text \<open>
  A generator function that yields once inside a \<^verbatim>\<open>try\<close> and swallows what is
  thrown into it: \<^verbatim>\<open>def plugin(ctx): try: yield; except Exception: pass\<close>
\<close>

definition swallow :: "'c frame" where
  "swallow = Frame (\<lambda>_. Raise StopIteration)"

definition swallowing :: "('c, 'c result) prog" where
  "swallowing =
     Done (Iterable True (Frame (\<lambda>r. case r of
        Some exc \<Rightarrow> uncaught exc
      | None \<Rightarrow> Done swallow)))"

text \<open>The tables of plugins of the examples; plugin A of the end-to-end example is plugin 0.\<close>

definition example_impl :: "plugin \<Rightarrow> (string list, string list result) prog" where
  "example_impl p =
     (if p = 0 then two_phase (\<lambda>log. log @ [''A-start'']) (\<lambda>log. log @ [''A-end''])
      else plugin_B)"

definition phases_impl :: "plugin \<Rightarrow> ((plugin \<times> string) list, (plugin \<times> string) list result) prog" where
  "phases_impl p = two_phase (\<lambda>log. log @ [(p, ''A'')]) (\<lambda>log. log @ [(p, ''B'')])"

definition absorbing_impl :: "plugin \<Rightarrow> (unit, unit result) prog" where
  "absorbing_impl p = (if p = 0 then swallowing else Raise (BubbleException ''stop''))"

definition passing_impl :: "plugin \<Rightarrow> (string list, string list result) prog" where
  "passing_impl p =
     (if p = 0 then guarded (\<lambda>log. log @ [''cleanup''])
      else if p = 1 then two_phase (\<lambda>log. log @ [''start'']) (\<lambda>log. log @ [''end''])
      else failing_late (BubbleException ''stop''))"

text \<open>A suspended task that finishes without raising however it is resumed.\<close>

definition absorbs :: "'c Task \<Rightarrow> bool" where
  "absorbs t \<longleftrightarrow> (\<exists>k. iterator t = Some (Live True (Frame k)) \<and> (\<forall>r. k r = Raise StopIteration))"

text \<open>
  Every task that the loop of \<open>run\<close> delivers the exception into passes it on: with this
  exception pending, lines 88 to 93 on the task that is popped raise this very exception
  again (thrown into a generator it comes out of it, after whatever the generator does
  about it; from an iterator that is no generator it is raised as it is), and so on from
  the state this leaves, tasks pushed in between included, until the stack is empty. The
  first argument bounds the rounds and the plugin code as in \<open>drain\<close>.
\<close>

fun passes_on ::
  "nat \<Rightarrow> importer \<Rightarrow> (plugin \<Rightarrow> ('c, 'c result) prog) \<Rightarrow>
   exn \<Rightarrow> 'c GenericPipeline \<Rightarrow> bool" where
  "passes_on 0 imp impl exc s = (tasks s = [])"
| "passes_on (Suc n) imp impl exc s =
     (tasks s = [] \<or>
      (case iterator (last (tasks s)) of
         None \<Rightarrow> False
       | Some _ \<Rightarrow>
           (case step n (require n imp impl) (last (tasks s)) (Some exc)
                   (record_event (Stepped (plugin (last (tasks s))) (status (last (tasks s))))
                     (s\<lparr>tasks := butlast (tasks s)\<rparr>)) of
              Some (Inl e, _, s') \<Rightarrow> e = exc \<and> passes_on n imp impl exc s'
            | _ \<Rightarrow> False)))"

subsection \<open>The life of an engine\<close>

text \<open>
  What a caller does with one engine: a sequence of calls of \<open>require\<close> and \<open>run\<close>, each
  on the state the one before left, whatever it raised.
\<close>

datatype request = Activate "spec list" | Run "spec list"

fun lifetime ::
  "nat \<Rightarrow> importer \<Rightarrow> (plugin \<Rightarrow> ('c, 'c result) prog) \<Rightarrow>
   request list \<Rightarrow> 'c GenericPipeline \<Rightarrow> 'c GenericPipeline option" where
  "lifetime fuel imp impl [] s = Some s"
| "lifetime fuel imp impl (Activate specs # reqs) s =
     (case require fuel imp impl specs s of
        None \<Rightarrow> None
      | Some (_, s') \<Rightarrow> lifetime fuel imp impl reqs s')"
| "lifetime fuel imp impl (Run specs # reqs) s =
     (case run fuel imp impl specs s of
        None \<Rightarrow> None
      | Some (_, s') \<Rightarrow> lifetime fuel imp impl reqs s')"

text \<open>
  A plugin that requires plugin 1 and itself before it does its own work, and an importer
  that knows one path, that of plugin 1.
\<close>

definition nesting_impl :: "plugin \<Rightarrow> (string list, string list result) prog" where
  "nesting_impl p =
     (if p = 0
      then Require [Callable 1, Callable 0] (\<lambda>_. Act (\<lambda>log. (log @ [''A''], Done NotIterable)))
      else plugin_B)"

definition one_import :: importer where
  "one_import path member allowed =
     (if path = ''plugins.b'' then Inr 1 else Inl (Exception ''ModuleNotFoundError''))"

section \<open>Auxiliary facts\<close>

lemmas engine_defs =
  advance_def start_def step_def resume_def handlers_def iter_def status_def
  record_event_def new_pipeline_def resolve_def isinstance_Generator_def pop_traceback_def

lemma record_event_simps [simp]:
  "ctx (record_event ev s) = ctx s"
  "default_symbol (record_event ev s) = default_symbol s"
  "whitelist (record_event ev s) = whitelist s"
  "plugins (record_event ev s) = plugins s"
  "tasks (record_event ev s) = tasks s"
  "trace (record_event ev s) = trace s @ [ev]"
  by (simp_all add: record_event_def)

lemma calls_append [simp]: "calls (xs @ ys) = calls xs @ calls ys"
  by (induction xs rule: calls.induct) simp_all

lemma stepped_append [simp]: "stepped (xs @ ys) = stepped xs @ stepped ys"
  by (induction xs rule: stepped.induct) simp_all

lemma exec_preserves:
  assumes req: "\<And>specs s r s'. I s \<Longrightarrow> req specs s = Some (r, s') \<Longrightarrow> I s'"
    and upd: "\<And>s c. I s \<Longrightarrow> I (s\<lparr>ctx := c\<rparr>)"
  shows "I s \<Longrightarrow> exec n req p s = Some (r, s') \<Longrightarrow> I s'"
proof (induction n arbitrary: p s)
  case 0
  then show ?case by simp
next
  case (Suc n)
  show ?case
  proof (cases p)
    case (Act f)
    obtain c p' where f: "f (ctx s) = (c, p')" by (cases "f (ctx s)")
    with Suc.prems Act have "exec n req p' (s\<lparr>ctx := c\<rparr>) = Some (r, s')" by simp
    moreover have "I (s\<lparr>ctx := c\<rparr>)" using Suc.prems(1) by (rule upd)
    ultimately show ?thesis by (rule Suc.IH[rotated])
  next
    case (Require specs k)
    with Suc.prems obtain r1 s1 where r1: "req specs s = Some (r1, s1)"
      and e: "exec n req (k r1) s1 = Some (r, s')"
      by (auto split: option.splits)
    from Suc.prems(1) r1 have "I s1" by (rule req)
    then show ?thesis using e by (rule Suc.IH)
  next
    case (Raise exc)
    with Suc.prems show ?thesis by simp
  next
    case (Done a)
    with Suc.prems show ?thesis by simp
  qed
qed

lemma sound_ctx: "sound s \<Longrightarrow> sound (s\<lparr>ctx := c\<rparr>)"
  by (simp add: sound_def)

lemma exec_sound:
  assumes "\<And>specs s r s'. sound s \<Longrightarrow> req specs s = Some (r, s') \<Longrightarrow> sound s'"
    and "sound s" and "exec n req p s = Some (r, s')"
  shows "sound s'"
  using assms(1) sound_ctx assms(2,3) by (rule exec_preserves[where I = sound])

lemma handlers_True: "handlers p r = Inr True \<longleftrightarrow> (\<exists>u. r = Inr u)"
  by (cases r) (simp_all add: handlers_def)

lemma resume_sound:
  assumes req: "\<And>specs s r s'. sound s \<Longrightarrow> req specs s = Some (r, s') \<Longrightarrow> sound s'"
    and s: "sound s" and r: "resume n req t e s = Some (r, t', s')"
  shows "sound s' \<and> plugin t' = plugin t \<and> (r = Inr () \<longrightarrow> status t' = Suspended)"
proof (cases "iterator t")
  case None
  with r s show ?thesis by (auto simp: resume_def)
next
  case (Some it)
  show ?thesis
  proof (cases it)
    case (Closed g)
    with Some r s show ?thesis by (auto simp: resume_def)
  next
    case (Live g f)
    obtain k where k: "f = Frame k" by (cases f)
    from r Some Live k obtain x s1 where e: "exec n req (k e) s = Some (x, s1)"
      by (auto simp: resume_def split: option.splits)
    from req s e have "sound s1" by (rule exec_sound)
    with r Some Live k e show ?thesis
      by (cases x) (auto simp: resume_def status_def)
  qed
qed

lemma step_sound:
  assumes req: "\<And>specs s r s'. sound s \<Longrightarrow> req specs s = Some (r, s') \<Longrightarrow> sound s'"
    and s: "sound s" and r: "step n req t e s = Some (r, t', s')"
  shows "sound s' \<and> plugin t' = plugin t \<and> (r = Inr () \<longrightarrow> status t' = Suspended)"
proof (cases "e = None \<or> isinstance_Generator (iterator t)")
  case True
  then have "step n req t e s = resume n req t e s"
    by (cases e) (simp_all add: step_def)
  with r have "resume n req t e s = Some (r, t', s')" by simp
  with req s show ?thesis by (rule resume_sound)
next
  case False
  with r s show ?thesis by (auto simp: step_def)
qed

lemma start_sound:
  assumes req: "\<And>specs s r s'. sound s \<Longrightarrow> req specs s = Some (r, s') \<Longrightarrow> sound s'"
    and s: "sound s"
    and new: "iterator t = None \<Longrightarrow> plugin t \<in> plugins s \<and> plugin t \<notin> set (calls (trace s))"
    and r: "start n req impl t s = Some (r, t', s')"
  shows "sound s' \<and> plugin t' = plugin t"
proof (cases "iterator t")
  case (Some it)
  with r s show ?thesis by (simp add: start_def)
next
  case None
  let ?s0 = "record_event (Called (plugin t)) s"
  from s new[OF None] have s0: "sound ?s0" by (auto simp: sound_def)
  from r None obtain x s1 where e: "exec n req (impl (plugin t)) ?s0 = Some (x, s1)"
    by (auto simp: start_def split: option.splits)
  from req s0 e have "sound s1" by (rule exec_sound)
  with r None e show ?thesis by (cases x) (auto simp: start_def)
qed

lemma advance_sound:
  assumes req: "\<And>specs s r s'. sound s \<Longrightarrow> req specs s = Some (r, s') \<Longrightarrow> sound s'"
    and s: "sound s"
    and fin: "status t \<noteq> Finished"
    and new: "iterator t = None \<Longrightarrow> plugin t \<in> plugins s \<and> plugin t \<notin> set (calls (trace s))"
    and r: "advance n req impl t e s = Some (r, t', s')"
  shows "sound s' \<and> plugin t' = plugin t \<and> (r = Inr True \<longrightarrow> status t' = Suspended)"
proof -
  let ?s0 = "record_event (Stepped (plugin t) (status t)) s"
  from s fin have s0: "sound ?s0" by (auto simp: sound_def)
  from r obtain x t1 s1 where st: "start n req impl t ?s0 = Some (x, t1, s1)"
    by (auto simp: advance_def split: option.splits)
  have "iterator t = None \<Longrightarrow> plugin t \<in> plugins ?s0 \<and> plugin t \<notin> set (calls (trace ?s0))"
    using new by simp
  with req s0 have "sound s1 \<and> plugin t1 = plugin t"
    using st by (rule start_sound)
  then have s1: "sound s1" and p1: "plugin t1 = plugin t" by simp_all
  show ?thesis
  proof (cases x)
    case (Inl exc)
    with r st s1 p1 show ?thesis
      by (auto simp: advance_def handlers_def split: if_splits)
  next
    case (Inr u)
    with r st obtain y where y: "step n req t1 e s1 = Some (y, t', s')"
      and ry: "r = handlers (plugin t) y"
      by (auto simp: advance_def split: option.splits)
    from req s1 y have "sound s' \<and> plugin t' = plugin t1 \<and> (y = Inr () \<longrightarrow> status t' = Suspended)"
      by (rule step_sound)
    with p1 ry show ?thesis by (auto simp: handlers_True)
  qed
qed

lemma sound_push:
  "sound s \<Longrightarrow> status t = Suspended \<Longrightarrow> sound (s\<lparr>tasks := tasks s @ [t]\<rparr>)"
  by (simp add: sound_def)

lemma sound_pop: "sound s \<Longrightarrow> sound (s\<lparr>tasks := butlast (tasks s)\<rparr>)"
  by (auto simp: sound_def dest: in_set_butlastD)

lemma sound_insert:
  "sound s \<Longrightarrow> sound (s\<lparr>plugins := insert p (plugins s)\<rparr>)"
  by (auto simp: sound_def)

lemma sound_not_called: "sound s \<Longrightarrow> p \<notin> plugins s \<Longrightarrow> p \<notin> set (calls (trace s))"
  by (auto simp: sound_def)

lemma require_loop_sound:
  assumes adv: "\<And>t s r t' s'. sound s \<Longrightarrow> iterator t = None \<Longrightarrow> plugin t \<in> plugins s \<Longrightarrow>
      plugin t \<notin> set (calls (trace s)) \<Longrightarrow> adv t None s = Some (r, t', s') \<Longrightarrow>
      sound s' \<and> (r = Inr True \<longrightarrow> status t' = Suspended)"
  shows "sound s \<Longrightarrow> require_loop adv imp args s = Some (r, s') \<Longrightarrow> sound s'"
proof (induction args arbitrary: s)
  case Nil
  then show ?case by simp
next
  case (Cons sp args)
  show ?case
  proof (cases "resolve imp s sp")
    case (Inl exc)
    with Cons.prems show ?thesis by simp
  next
    case (Inr p)
    show ?thesis
    proof (cases "p \<in> plugins s")
      case True
      with Cons Inr show ?thesis by simp
    next
      case False
      let ?t = "\<lparr>plugin = p, iterator = None\<rparr>"
      let ?s1 = "s\<lparr>plugins := insert p (plugins s)\<rparr>"
      from Cons.prems Inr False obtain x t' s2 where a: "adv ?t None ?s1 = Some (x, t', s2)"
        by (auto split: option.splits)
      have "sound ?s1" using Cons.prems(1) by (rule sound_insert)
      moreover have "plugin ?t \<notin> set (calls (trace ?s1))"
        using sound_not_called[OF Cons.prems(1) False] by simp
      ultimately have s2: "sound s2 \<and> (x = Inr True \<longrightarrow> status t' = Suspended)"
        using a by (intro adv[of ?s1 ?t]) simp_all
      show ?thesis
      proof (cases x)
        case (Inl exc)
        with Cons.prems Inr False a s2 show ?thesis by simp
      next
        case (Inr b)
        let ?s3 = "if b then s2\<lparr>tasks := tasks s2 @ [t']\<rparr> else s2"
        from Cons.prems \<open>resolve imp s sp = Inr p\<close> False a Inr
        have "require_loop adv imp args ?s3 = Some (r, s')" by simp
        moreover have "sound ?s3" using s2 Inr by (simp add: sound_push)
        ultimately show ?thesis by (rule Cons.IH[rotated])
      qed
    qed
  qed
qed

lemma status_new [simp]: "iterator t = None \<Longrightarrow> status t = Unstarted"
  by (simp add: status_def)

lemma require_sound:
  "sound s \<Longrightarrow> require n imp impl args s = Some (r, s') \<Longrightarrow> sound s'"
proof (induction n arbitrary: args s r s')
  case 0
  then show ?case by simp
next
  case (Suc n)
  from Suc.prems(2)
  have "require_loop (advance n (require n imp impl) impl) imp args s = Some (r, s')"
    by simp
  with _ Suc.prems(1) show ?case
  proof (rule require_loop_sound)
    fix t s r t' s'
    assume "sound (s::'a GenericPipeline)" "iterator t = None" "plugin t \<in> plugins s"
      "plugin t \<notin> set (calls (trace s))"
      "advance n (require n imp impl) impl t None s = Some (r, t', s')"
    then show "sound s' \<and> (r = Inr True \<longrightarrow> status t' = Suspended)"
      using advance_sound[of "require n imp impl" s t n impl None r t' s'] Suc.IH
      by simp
  qed
qed

lemma drain_sound:
  "sound s \<Longrightarrow> drain n imp impl e s = Some (r, s') \<Longrightarrow> sound s'"
proof (induction n arbitrary: e s)
  case 0
  then show ?case by (simp split: if_splits)
next
  case (Suc n)
  show ?case
  proof (cases "tasks s = []")
    case True
    with Suc.prems show ?thesis by simp
  next
    case False
    let ?t = "last (tasks s)"
    let ?s1 = "s\<lparr>tasks := butlast (tasks s)\<rparr>"
    from Suc.prems False obtain x t' s2 where
      a: "advance n (require n imp impl) impl ?t e ?s1 = Some (x, t', s2)"
      by (auto split: option.splits)
    from False Suc.prems(1) have st: "status ?t = Suspended" by (simp add: sound_def)
    have "sound s2 \<and> plugin t' = plugin ?t \<and> (x = Inr True \<longrightarrow> status t' = Suspended)"
    proof (rule advance_sound[OF _ _ _ _ a])
      show "sound ?s1" using Suc.prems(1) by (rule sound_pop)
      show "status ?t \<noteq> Finished" using st by simp
      show "iterator ?t = None \<Longrightarrow> plugin ?t \<in> plugins ?s1 \<and> plugin ?t \<notin> set (calls (trace ?s1))"
        using st by (simp add: status_def)
    qed (rule require_sound)
    then have s2: "sound s2" and x: "x = Inr True \<Longrightarrow> status t' = Suspended" by simp_all
    show ?thesis
    proof (cases x)
      case (Inl exc)
      with Suc.prems False a have "drain n imp impl (Some exc) s2 = Some (r, s')" by simp
      with s2 show ?thesis by (rule Suc.IH)
    next
      case (Inr b)
      let ?s3 = "if b then s2\<lparr>tasks := tasks s2 @ [t']\<rparr> else s2"
      from Suc.prems False a Inr have "drain n imp impl None ?s3 = Some (r, s')" by simp
      moreover have "sound ?s3" using s2 x Inr by (simp add: sound_push)
      ultimately show ?thesis by (rule Suc.IH[rotated])
    qed
  qed
qed

lemma run_sound:
  "sound s \<Longrightarrow> run n imp impl specs s = Some (r, s') \<Longrightarrow> sound s'"
  by (auto simp: run_def split: option.splits dest: require_sound drain_sound)

lemma sound_new: "sound (new_pipeline c)"
  by (simp add: sound_def new_pipeline_def)

lemma extends_refl [simp]: "extends s s"
  by (simp add: extends_def)

lemma extends_trans: "extends s s' \<Longrightarrow> extends s' s'' \<Longrightarrow> extends s s''"
  by (auto simp: extends_def)

lemma extends_updates [simp]:
  "extends s (s'\<lparr>ctx := c\<rparr>) = extends s s'"
  "extends s (s'\<lparr>tasks := ts\<rparr>) = extends s s'"
  by (simp_all add: extends_def)

lemma extends_event: "extends s s' \<Longrightarrow> extends s (record_event ev s')"
  by (auto simp: extends_def)

lemma extends_insert: "extends s s' \<Longrightarrow> extends s (s'\<lparr>plugins := insert p (plugins s')\<rparr>)"
  by (auto simp: extends_def)

lemma exec_extends:
  assumes req: "\<And>specs s r s'. req specs s = Some (r, s') \<Longrightarrow> extends s s'"
    and e: "exec n req p s = Some (r, s')"
  shows "extends s s'"
proof -
  have "extends s s \<Longrightarrow> extends s s'"
    using _ _ _ e
  proof (rule exec_preserves[where I = "extends s"])
    show "\<And>specs t r t'. extends s t \<Longrightarrow> req specs t = Some (r, t') \<Longrightarrow> extends s t'"
      using req extends_trans by blast
  qed simp_all
  then show ?thesis by simp
qed

lemma resume_extends:
  assumes req: "\<And>specs s r s'. req specs s = Some (r, s') \<Longrightarrow> extends s s'"
    and r: "resume n req t e s = Some (r, t', s')"
  shows "extends s s'"
proof (cases "iterator t")
  case None
  with r show ?thesis by (auto simp: resume_def)
next
  case (Some it)
  show ?thesis
  proof (cases it)
    case (Closed g)
    with Some r show ?thesis by (auto simp: resume_def)
  next
    case (Live g f)
    obtain k where k: "f = Frame k" by (cases f)
    from r Some Live k obtain x s1 where e: "exec n req (k e) s = Some (x, s1)"
      by (auto simp: resume_def split: option.splits)
    from req e have "extends s s1" by (rule exec_extends)
    with r Some Live k e show ?thesis
      by (cases x) (auto simp: resume_def)
  qed
qed

lemma step_extends:
  assumes req: "\<And>specs s r s'. req specs s = Some (r, s') \<Longrightarrow> extends s s'"
    and r: "step n req t e s = Some (r, t', s')"
  shows "extends s s'"
proof (cases "e = None \<or> isinstance_Generator (iterator t)")
  case True
  then have "step n req t e s = resume n req t e s"
    by (cases e) (simp_all add: step_def)
  with r have "resume n req t e s = Some (r, t', s')" by simp
  with req show ?thesis by (rule resume_extends)
next
  case False
  with r show ?thesis by (auto simp: step_def)
qed

lemma start_extends:
  assumes req: "\<And>specs s r s'. req specs s = Some (r, s') \<Longrightarrow> extends s s'"
    and r: "start n req impl t s = Some (r, t', s')"
  shows "extends s s'"
proof (cases "iterator t")
  case (Some it)
  with r show ?thesis by (simp add: start_def)
next
  case None
  let ?s0 = "record_event (Called (plugin t)) s"
  from r None obtain x s1 where e: "exec n req (impl (plugin t)) ?s0 = Some (x, s1)"
    by (auto simp: start_def split: option.splits)
  from req e have "extends ?s0 s1" by (rule exec_extends)
  with extends_event[OF extends_refl] have "extends s s1" by (rule extends_trans)
  with r None e show ?thesis by (cases x) (auto simp: start_def)
qed

lemma advance_extends:
  assumes req: "\<And>specs s r s'. req specs s = Some (r, s') \<Longrightarrow> extends s s'"
    and r: "advance n req impl t e s = Some (r, t', s')"
  shows "extends s s'"
proof -
  let ?s0 = "record_event (Stepped (plugin t) (status t)) s"
  have s0: "extends s ?s0" by (simp add: extends_event)
  from r obtain x t1 s1 where st: "start n req impl t ?s0 = Some (x, t1, s1)"
    by (auto simp: advance_def split: option.splits)
  from req st have "extends ?s0 s1" by (rule start_extends)
  with s0 have s1: "extends s s1" by (rule extends_trans)
  show ?thesis
  proof (cases x)
    case (Inl exc)
    with r st s1 show ?thesis by (auto simp: advance_def)
  next
    case (Inr u)
    with r st obtain y where y: "step n req t1 e s1 = Some (y, t', s')"
      by (auto simp: advance_def split: option.splits)
    from req y have "extends s1 s'" by (rule step_extends)
    with s1 show ?thesis by (rule extends_trans)
  qed
qed

lemma require_loop_extends:
  assumes adv: "\<And>t e s r t' s'. adv t e s = Some (r, t', s') \<Longrightarrow> extends s s'"
  shows "require_loop adv imp args s = Some (r, s') \<Longrightarrow> extends s s'"
proof (induction args arbitrary: s)
  case Nil
  then show ?case by simp
next
  case (Cons sp args)
  show ?case
  proof (cases "resolve imp s sp")
    case (Inl exc)
    with Cons.prems show ?thesis by simp
  next
    case (Inr p)
    show ?thesis
    proof (cases "p \<in> plugins s")
      case True
      with Cons Inr show ?thesis by simp
    next
      case False
      let ?t = "\<lparr>plugin = p, iterator = None\<rparr>"
      let ?s1 = "s\<lparr>plugins := insert p (plugins s)\<rparr>"
      from Cons.prems Inr False obtain x t' s2 where a: "adv ?t None ?s1 = Some (x, t', s2)"
        by (auto split: option.splits)
      have "extends s ?s1" by (simp add: extends_insert)
      moreover from a have "extends ?s1 s2" by (rule adv)
      ultimately have s2: "extends s s2" by (rule extends_trans)
      show ?thesis
      proof (cases x)
        case (Inl exc)
        with Cons.prems Inr False a s2 show ?thesis by simp
      next
        case (Inr b)
        let ?s3 = "if b then s2\<lparr>tasks := tasks s2 @ [t']\<rparr> else s2"
        from Cons.prems \<open>resolve imp s sp = Inr p\<close> False a Inr
        have "require_loop adv imp args ?s3 = Some (r, s')" by simp
        then have "extends ?s3 s'" by (rule Cons.IH)
        moreover have "extends s ?s3" using s2 by simp
        ultimately show ?thesis using extends_trans by blast
      qed
    qed
  qed
qed

lemma require_extends:
  "require n imp impl args s = Some (r, s') \<Longrightarrow> extends s s'"
proof (induction n arbitrary: args s r s')
  case 0
  then show ?case by simp
next
  case (Suc n)
  from Suc.prems
  have "require_loop (advance n (require n imp impl) impl) imp args s = Some (r, s')"
    by simp
  with _ show ?case
  proof (rule require_loop_extends)
    fix t e s r t' s'
    assume "advance n (require n imp impl) impl t e s = Some (r, t', s')"
    with Suc.IH show "extends s s'" by (rule advance_extends)
  qed
qed

lemma drain_extends:
  "drain n imp impl e s = Some (r, s') \<Longrightarrow> extends s s'"
proof (induction n arbitrary: e s)
  case 0
  then show ?case by (simp split: if_splits)
next
  case (Suc n)
  show ?case
  proof (cases "tasks s = []")
    case True
    with Suc.prems show ?thesis by simp
  next
    case False
    let ?t = "last (tasks s)"
    let ?s1 = "s\<lparr>tasks := butlast (tasks s)\<rparr>"
    from Suc.prems False obtain x t' s2 where
      a: "advance n (require n imp impl) impl ?t e ?s1 = Some (x, t', s2)"
      by (auto split: option.splits)
    have "extends ?s1 s2" using require_extends a by (rule advance_extends)
    then have s2: "extends s s2" by (simp add: extends_def)
    show ?thesis
    proof (cases x)
      case (Inl exc)
      with Suc.prems False a have "drain n imp impl (Some exc) s2 = Some (r, s')" by simp
      then have "extends s2 s'" by (rule Suc.IH)
      with s2 show ?thesis by (rule extends_trans)
    next
      case (Inr b)
      let ?s3 = "if b then s2\<lparr>tasks := tasks s2 @ [t']\<rparr> else s2"
      from Suc.prems False a Inr have "drain n imp impl None ?s3 = Some (r, s')" by simp
      then have "extends ?s3 s'" by (rule Suc.IH)
      moreover have "extends s ?s3" using s2 by simp
      ultimately show ?thesis using extends_trans by blast
    qed
  qed
qed

section \<open>Resolving plugin specs\<close>

text \<open>
  C7. \<open>resolve\<close> returns a callable unchanged. For a dotted path it returns what the
  importer finds; what the importer raises is raised unchanged if it is a
  \<open>BubbleException\<close>, and otherwise wrapped in a \<open>PluginImportError\<close> that carries the
  spec and has the importer's exception as its cause. So \<open>require\<close> on a path that the
  importer cannot resolve raises that error and leaves the whole state as it was: the
  trace is the same, no plugin was called.
\<close>

theorem resolve_wraps_lookup_failure:
  "resolve imp s (Callable p) = Inr p \<and>
   (imp path (default_symbol s) (whitelist s) = Inr p \<longrightarrow> resolve imp s (Dotted path) = Inr p) \<and>
   (imp path (default_symbol s) (whitelist s) = Inl exc \<longrightarrow>
      resolve imp s (Dotted path) =
        Inl (if isinstance_BubbleException exc then exc else PluginImportError (Dotted path) exc) \<and>
      require (Suc n) imp impl (Dotted path # args) s =
        Some (Some (if isinstance_BubbleException exc then exc
                    else PluginImportError (Dotted path) exc), s))"
  by (simp add: resolve_def)

theorem resolve_wraps_lookup_failure_witness:
  "resolve no_import (new_pipeline ()) (Dotted ''bad.module:fn'') =
     Inl (PluginImportError (Dotted ''bad.module:fn'') (Exception ''ModuleNotFoundError'')) \<and>
   require (Suc 0) no_import (\<lambda>_. Done NotIterable) [Dotted ''bad.module:fn''] (new_pipeline ()) =
     Some (Some (PluginImportError (Dotted ''bad.module:fn'') (Exception ''ModuleNotFoundError'')),
           new_pipeline ())"
proof -
  let ?s = "new_pipeline ()"
  have h: "no_import ''bad.module:fn'' (default_symbol ?s) (whitelist ?s) =
      Inl (Exception ''ModuleNotFoundError'')"
    by (simp add: no_import_def)
  have b: "\<not> isinstance_BubbleException (Exception ''ModuleNotFoundError'')" by simp
  from resolve_wraps_lookup_failure[of no_import ?s 0 "''bad.module:fn''"
      "Exception ''ModuleNotFoundError''" 0 "\<lambda>_. Done NotIterable" "[]"] h
  have "resolve no_import ?s (Dotted ''bad.module:fn'') =
        Inl (if isinstance_BubbleException (Exception ''ModuleNotFoundError'')
             then Exception ''ModuleNotFoundError''
             else PluginImportError (Dotted ''bad.module:fn'') (Exception ''ModuleNotFoundError'')) \<and>
      require (Suc 0) no_import (\<lambda>_. Done NotIterable) [Dotted ''bad.module:fn''] ?s =
        Some (Some (if isinstance_BubbleException (Exception ''ModuleNotFoundError'')
                    then Exception ''ModuleNotFoundError''
                    else PluginImportError (Dotted ''bad.module:fn'') (Exception ''ModuleNotFoundError'')), ?s)"
    by blast
  then show ?thesis unfolding if_not_P[OF b] .
qed

subsection \<open>Unfolding \<open>advance\<close> and \<open>require\<close>\<close>

lemma exec_Some_fuel: "exec n req p s = Some x \<Longrightarrow> \<exists>m. n = Suc m"
  by (cases n) simp_all

lemma advance_unstarted:
  "iterator self = None \<Longrightarrow>
   advance n req impl self exception s =
     (case exec n req (impl (plugin self))
             (record_event (Called (plugin self))
               (record_event (Stepped (plugin self) Unstarted) s)) of
        None \<Rightarrow> None
      | Some (Inl exc, s') \<Rightarrow> Some (handlers (plugin self) (Inl exc), self, s')
      | Some (Inr result, s') \<Rightarrow>
          (case step n req (self\<lparr>iterator := Some (iter result)\<rparr>) exception s' of
             None \<Rightarrow> None
           | Some (r, self', s'') \<Rightarrow> Some (handlers (plugin self) r, self', s'')))"
  by (simp add: advance_def start_def split: option.splits sum.splits)

lemma advance_started:
  "iterator self = Some it \<Longrightarrow>
   advance n req impl self exception s =
     (case step n req self exception (record_event (Stepped (plugin self) (status self)) s) of
        None \<Rightarrow> None
      | Some (r, self', s') \<Rightarrow> Some (handlers (plugin self) r, self', s'))"
  by (simp add: advance_def start_def split: option.splits sum.splits)

lemma require_Nil: "require (Suc n) imp impl [] s = Some (None, s)"
  by simp

lemma require_Cons:
  "require (Suc n) imp impl (sp # args) s =
     (case resolve imp s sp of
        Inl exc \<Rightarrow> Some (Some exc, s)
      | Inr p \<Rightarrow>
          if p \<in> plugins s then require (Suc n) imp impl args s
          else
            (case advance n (require n imp impl) impl \<lparr>plugin = p, iterator = None\<rparr> None
                    (s\<lparr>plugins := insert p (plugins s)\<rparr>) of
               None \<Rightarrow> None
             | Some (Inl exc, _, s') \<Rightarrow> Some (Some exc, s')
             | Some (Inr remaining_work, self', s') \<Rightarrow>
                 require (Suc n) imp impl args
                   (if remaining_work then s'\<lparr>tasks := tasks s' @ [self']\<rparr> else s')))"
  unfolding require.simps by simp

lemma require_single:
  "p \<notin> plugins s \<Longrightarrow>
   require (Suc n) imp impl (Callable p # args) s =
     (case advance n (require n imp impl) impl \<lparr>plugin = p, iterator = None\<rparr> None
             (s\<lparr>plugins := insert p (plugins s)\<rparr>) of
        None \<Rightarrow> None
      | Some (Inl exc, _, s') \<Rightarrow> Some (Some exc, s')
      | Some (Inr remaining_work, self', s') \<Rightarrow>
          require (Suc n) imp impl args
            (if remaining_work then s'\<lparr>tasks := tasks s' @ [self']\<rparr> else s'))"
  by (simp add: require_Cons resolve_def del: require.simps)

section \<open>Plugins that are done after one step\<close>

text \<open>
  C10. If the call of the plugin raises \<open>StopIteration\<close>, or \<open>next\<close> on the task's
  iterator does, \<open>advance\<close> returns \<open>None\<close> ("no remaining work") and raises nothing.
  In \<open>require\<close> a plugin whose call raises \<open>StopIteration\<close> and a plugin that returns a
  value that is not iterable give the same result: no error, nothing pushed, the state as
  the plugin code left it.
\<close>

theorem stop_iteration_is_completion:
  "(iterator self = None \<and>
    exec n req (impl (plugin self))
      (record_event (Called (plugin self)) (record_event (Stepped (plugin self) Unstarted) s)) =
      Some (Inl StopIteration, s') \<longrightarrow>
    advance n req impl self exception s = Some (Inr False, self, s')) \<and>
   (iterator self = Some (Live g (Frame k)) \<and>
    exec n req (k None) (record_event (Stepped (plugin self) Suspended) s) =
      Some (Inl StopIteration, s') \<longrightarrow>
    advance n req impl self None s =
      Some (Inr False, self\<lparr>iterator := Some (Closed g)\<rparr>, s')) \<and>
   (p \<notin> plugins s \<and>
    exec n (require n imp impl) (impl p)
      (record_event (Called p) (record_event (Stepped p Unstarted)
        (s\<lparr>plugins := insert p (plugins s)\<rparr>))) \<in>
      {Some (Inl StopIteration, s'), Some (Inr NotIterable, s')} \<longrightarrow>
    require (Suc n) imp impl [Callable p] s = Some (None, s'))"
proof (intro conjI impI)
  assume "iterator self = None \<and>
    exec n req (impl (plugin self))
      (record_event (Called (plugin self)) (record_event (Stepped (plugin self) Unstarted) s)) =
      Some (Inl StopIteration, s')"
  then show "advance n req impl self exception s = Some (Inr False, self, s')"
    by (simp add: advance_unstarted handlers_def)
next
  assume "iterator self = Some (Live g (Frame k)) \<and>
    exec n req (k None) (record_event (Stepped (plugin self) Suspended) s) =
      Some (Inl StopIteration, s')"
  then show "advance n req impl self None s =
      Some (Inr False, self\<lparr>iterator := Some (Closed g)\<rparr>, s')"
    by (simp add: advance_started status_def step_def resume_def handlers_def)
next
  let ?s0 = "record_event (Called p) (record_event (Stepped p Unstarted)
        (s\<lparr>plugins := insert p (plugins s)\<rparr>))"
  assume a: "p \<notin> plugins s \<and>
    exec n (require n imp impl) (impl p) ?s0 \<in>
      {Some (Inl StopIteration, s'), Some (Inr NotIterable, s')}"
  then obtain m where n: "n = Suc m" using exec_Some_fuel by blast
  from a consider "exec n (require n imp impl) (impl p) ?s0 = Some (Inl StopIteration, s')"
    | "exec n (require n imp impl) (impl p) ?s0 = Some (Inr NotIterable, s')"
    by blast
  then show "require (Suc n) imp impl [Callable p] s = Some (None, s')"
  proof cases
    case 1
    with a show ?thesis
      by (simp add: require_single require_Nil advance_unstarted handlers_def del: require.simps)
  next
    case 2
    with a n show ?thesis
      by (simp add: require_single require_Nil advance_unstarted handlers_def iter_def step_def
          resume_def del: require.simps)
  qed
qed

theorem stop_iteration_is_completion_witness:
  "advance (Suc 0) (\<lambda>_ _. None) (\<lambda>_. Raise StopIteration) \<lparr>plugin = 0, iterator = None\<rparr> None
     (new_pipeline ()) =
   Some (Inr False, \<lparr>plugin = 0, iterator = None\<rparr>,
     record_event (Called 0) (record_event (Stepped 0 Unstarted) (new_pipeline ())))"
proof -
  let ?t = "\<lparr>plugin = 0, iterator = None\<rparr> :: unit Task"
  let ?s' = "record_event (Called 0) (record_event (Stepped 0 Unstarted) (new_pipeline ()))"
  have "iterator ?t = None \<and>
    exec (Suc 0) (\<lambda>_ _. None) (Raise StopIteration)
      (record_event (Called (plugin ?t))
        (record_event (Stepped (plugin ?t) Unstarted) (new_pipeline ()))) =
    Some (Inl StopIteration :: exn + unit result, ?s')"
    by simp
  with stop_iteration_is_completion[where self = ?t and n = "Suc 0" and req = "\<lambda>_ _. None"
      and impl = "\<lambda>_. Raise StopIteration" and s = "new_pipeline ()" and s' = ?s'
      and exception = None]
  show ?thesis by blast
qed

text \<open>
  C5, amended. The iterator made for a result that is not iterable raises \<open>StopIteration\<close> on
  the first \<open>next\<close>, with no effect. So the first step of a plugin that returns such a
  result returns \<open>None\<close>, and with an exception to deliver it does not return the task
  either; \<open>require\<close> goes on to the next spec with the state the plugin code left,
  nothing pushed.
\<close>

theorem non_iterable_result_finishes_in_one_step:
  "resume (Suc m) req \<lparr>plugin = p, iterator = Some (iter NotIterable)\<rparr> None s =
     Some (Inl StopIteration, \<lparr>plugin = p, iterator = Some (Closed False)\<rparr>, s) \<and>
   (iterator self = None \<and>
    exec n req (impl (plugin self))
      (record_event (Called (plugin self)) (record_event (Stepped (plugin self) Unstarted) s)) =
      Some (Inr NotIterable, s') \<longrightarrow>
    advance n req impl self None s =
      Some (Inr False, self\<lparr>iterator := Some (Closed False)\<rparr>, s') \<and>
    (\<forall>r t s''. advance n req impl self exception s = Some (r, t, s'') \<longrightarrow> r \<noteq> Inr True)) \<and>
   (p \<notin> plugins s \<and>
    exec n (require n imp impl) (impl p)
      (record_event (Called p) (record_event (Stepped p Unstarted)
        (s\<lparr>plugins := insert p (plugins s)\<rparr>))) = Some (Inr NotIterable, s') \<longrightarrow>
    require (Suc n) imp impl (Callable p # args) s = require (Suc n) imp impl args s')"
proof (intro conjI impI)
  show "resume (Suc m) req \<lparr>plugin = p, iterator = Some (iter NotIterable)\<rparr> None s =
     Some (Inl StopIteration, \<lparr>plugin = p, iterator = Some (Closed False)\<rparr>, s)"
    by (simp add: resume_def iter_def)
next
  assume a: "iterator self = None \<and>
    exec n req (impl (plugin self))
      (record_event (Called (plugin self)) (record_event (Stepped (plugin self) Unstarted) s)) =
      Some (Inr NotIterable, s')"
  then obtain m where n: "n = Suc m" using exec_Some_fuel by blast
  from a n show "advance n req impl self None s =
      Some (Inr False, self\<lparr>iterator := Some (Closed False)\<rparr>, s')"
    by (simp add: advance_unstarted handlers_def iter_def step_def resume_def)
  from a n show "\<forall>r t s''. advance n req impl self exception s = Some (r, t, s'') \<longrightarrow> r \<noteq> Inr True"
    by (cases exception)
      (auto simp: advance_unstarted handlers_def iter_def step_def resume_def
        isinstance_Generator_def)
next
  let ?s0 = "record_event (Called p) (record_event (Stepped p Unstarted)
        (s\<lparr>plugins := insert p (plugins s)\<rparr>))"
  assume a: "p \<notin> plugins s \<and>
    exec n (require n imp impl) (impl p) ?s0 = Some (Inr NotIterable, s')"
  then obtain m where n: "n = Suc m" using exec_Some_fuel by blast
  from a n show "require (Suc n) imp impl (Callable p # args) s = require (Suc n) imp impl args s'"
    by (simp add: require_single advance_unstarted handlers_def iter_def step_def
          resume_def del: require.simps)
qed

theorem non_iterable_result_finishes_in_one_step_witness:
  "require (Suc (Suc (Suc 0))) no_import (\<lambda>_. plugin_B) [Callable 1] (new_pipeline []) =
   Some (None, \<lparr>ctx = [''B''], default_symbol = ''beet_default'', whitelist = None,
      plugins = {1}, tasks = [], trace = [Stepped 1 Unstarted, Called 1]\<rparr>)"
proof -
  let ?s = "new_pipeline [] :: string list GenericPipeline"
  let ?s' = "\<lparr>ctx = [''B''], default_symbol = ''beet_default'', whitelist = None,
      plugins = {1}, tasks = [], trace = [Stepped 1 Unstarted, Called 1]\<rparr>"
  let ?n = "Suc (Suc 0)"
  have "1 \<notin> plugins ?s \<and>
    exec ?n (require ?n no_import (\<lambda>_. plugin_B)) plugin_B
      (record_event (Called 1) (record_event (Stepped 1 Unstarted)
        (?s\<lparr>plugins := insert 1 (plugins ?s)\<rparr>))) = Some (Inr NotIterable, ?s')"
    by (simp add: new_pipeline_def plugin_B_def record_event_def)
  with non_iterable_result_finishes_in_one_step[where p = 1 and s = ?s and n = ?n
      and imp = no_import and impl = "\<lambda>_. plugin_B" and s' = ?s' and args = "[]"]
  have "require (Suc ?n) no_import (\<lambda>_. plugin_B) [Callable 1] ?s =
        require (Suc ?n) no_import (\<lambda>_. plugin_B) [] ?s'"
    by blast
  also have "\<dots> = Some (None, ?s')" by (rule require_Nil)
  finally show ?thesis .
qed

text \<open>
  The claim as it is written fails: a list is no lazy sequence, but it is iterable, and
  line 86 asks for no more. The task of a plugin that returns a list of one element is
  suspended after its first step and is pushed.
\<close>

theorem result_that_is_not_lazy_counterexample:
  "require (Suc (Suc 0)) no_import (\<lambda>_. Done (Iterable False one_item)) [Callable 0]
     (new_pipeline ()) =
   Some (None,
     \<lparr>ctx = (), default_symbol = ''beet_default'', whitelist = None, plugins = {0},
      tasks = [\<lparr>plugin = 0, iterator = Some (Live False (Frame (\<lambda>_. Raise StopIteration)))\<rparr>],
      trace = [Stepped 0 Unstarted, Called 0]\<rparr>)"
  by (simp add: engine_defs one_item_def)

section \<open>Delivering a pending exception into a task\<close>

lemma handlers_Inl:
  "handlers p (Inl exc) =
     (if exc = StopIteration then Inr False
      else if isinstance_BubbleException exc then Inl exc
      else Inl (PluginError p exc))"
  by (simp add: handlers_def pop_traceback_def)

lemma handlers_raises: "handlers p r = Inl x \<Longrightarrow> isinstance_BubbleException x"
  by (cases r) (auto simp: handlers_def split: if_splits)

lemma advance_raises:
  "advance n req impl t e s = Some (Inl x, t', s') \<Longrightarrow> isinstance_BubbleException x"
  by (auto simp: advance_def split: option.splits sum.splits dest: handlers_raises)

text \<open>
  C6, amended. A task is stepped with a pending exception; if it has no iterator yet, the
  plugin is called first and returns one. If the iterator is a generator, the exception is
  thrown into it at its suspension point: the generator's code for that exception runs
  (a generator that has finished raises it at once). If it is not a generator, the pending
  exception is raised at once, the iterator is not advanced and no plugin code runs. The
  \<^verbatim>\<open>raise\<close> is inside the \<^verbatim>\<open>try\<close>, so the exception leaves \<open>advance\<close>
  unchanged if it is a \<open>BubbleException\<close>, is wrapped in a \<open>PluginError\<close> if it is not,
  and \<open>StopIteration\<close> makes \<open>advance\<close> return \<open>None\<close>.
\<close>

theorem pending_error_injected_or_raised:
  "(iterator self = Some (Live True (Frame k)) \<longrightarrow>
    advance n req impl self (Some exc) s =
      (case exec n req (k (Some exc)) (record_event (Stepped (plugin self) Suspended) s) of
         None \<Rightarrow> None
       | Some (Inl e, s') \<Rightarrow>
           Some (handlers (plugin self) (Inl e), self\<lparr>iterator := Some (Closed True)\<rparr>, s')
       | Some (Inr f, s') \<Rightarrow> Some (Inr True, self\<lparr>iterator := Some (Live True f)\<rparr>, s'))) \<and>
   (iterator self = Some it \<and> \<not> isinstance_Generator (Some it) \<longrightarrow>
    advance n req impl self (Some exc) s =
      Some (if exc = StopIteration then Inr False
            else if isinstance_BubbleException exc then Inl exc
            else Inl (PluginError (plugin self) exc),
            self, record_event (Stepped (plugin self) (status self)) s)) \<and>
   (iterator self = None \<and>
    exec n req (impl (plugin self))
      (record_event (Called (plugin self)) (record_event (Stepped (plugin self) Unstarted) s)) =
      Some (Inr (Iterable True (Frame k)), s1) \<longrightarrow>
    advance n req impl self (Some exc) s =
      (case exec n req (k (Some exc)) s1 of
         None \<Rightarrow> None
       | Some (Inl e, s') \<Rightarrow>
           Some (handlers (plugin self) (Inl e), self\<lparr>iterator := Some (Closed True)\<rparr>, s')
       | Some (Inr f, s') \<Rightarrow> Some (Inr True, self\<lparr>iterator := Some (Live True f)\<rparr>, s'))) \<and>
   (iterator self = None \<and>
    exec n req (impl (plugin self))
      (record_event (Called (plugin self)) (record_event (Stepped (plugin self) Unstarted) s)) =
      Some (Inr result, s1) \<and> \<not> isinstance_Generator (Some (iter result)) \<longrightarrow>
    advance n req impl self (Some exc) s =
      Some (if exc = StopIteration then Inr False
            else if isinstance_BubbleException exc then Inl exc
            else Inl (PluginError (plugin self) exc),
            self\<lparr>iterator := Some (iter result)\<rparr>, s1)) \<and>
   (iterator self = Some (Closed True) \<longrightarrow>
    advance n req impl self (Some exc) s =
      Some (if exc = StopIteration then Inr False
            else if isinstance_BubbleException exc then Inl exc
            else Inl (PluginError (plugin self) exc),
            self, record_event (Stepped (plugin self) Finished) s))"
proof (intro conjI impI)
  assume "iterator self = Some (Live True (Frame k))"
  then show "advance n req impl self (Some exc) s =
      (case exec n req (k (Some exc)) (record_event (Stepped (plugin self) Suspended) s) of
         None \<Rightarrow> None
       | Some (Inl e, s') \<Rightarrow>
           Some (handlers (plugin self) (Inl e), self\<lparr>iterator := Some (Closed True)\<rparr>, s')
       | Some (Inr f, s') \<Rightarrow> Some (Inr True, self\<lparr>iterator := Some (Live True f)\<rparr>, s'))"
    by (simp add: advance_started status_def step_def isinstance_Generator_def resume_def
        handlers_def split: option.splits sum.splits)
next
  assume "iterator self = Some it \<and> \<not> isinstance_Generator (Some it)"
  then show "advance n req impl self (Some exc) s =
      Some (if exc = StopIteration then Inr False
            else if isinstance_BubbleException exc then Inl exc
            else Inl (PluginError (plugin self) exc),
            self, record_event (Stepped (plugin self) (status self)) s)"
    by (simp add: advance_started step_def handlers_Inl)
next
  assume "iterator self = None \<and>
    exec n req (impl (plugin self))
      (record_event (Called (plugin self)) (record_event (Stepped (plugin self) Unstarted) s)) =
      Some (Inr (Iterable True (Frame k)), s1)"
  then show "advance n req impl self (Some exc) s =
      (case exec n req (k (Some exc)) s1 of
         None \<Rightarrow> None
       | Some (Inl e, s') \<Rightarrow>
           Some (handlers (plugin self) (Inl e), self\<lparr>iterator := Some (Closed True)\<rparr>, s')
       | Some (Inr f, s') \<Rightarrow> Some (Inr True, self\<lparr>iterator := Some (Live True f)\<rparr>, s'))"
    by (simp add: advance_unstarted iter_def step_def isinstance_Generator_def resume_def
        handlers_def split: option.splits sum.splits)
next
  assume "iterator self = None \<and>
    exec n req (impl (plugin self))
      (record_event (Called (plugin self)) (record_event (Stepped (plugin self) Unstarted) s)) =
      Some (Inr result, s1) \<and> \<not> isinstance_Generator (Some (iter result))"
  then show "advance n req impl self (Some exc) s =
      Some (if exc = StopIteration then Inr False
            else if isinstance_BubbleException exc then Inl exc
            else Inl (PluginError (plugin self) exc),
            self\<lparr>iterator := Some (iter result)\<rparr>, s1)"
    by (simp add: advance_unstarted step_def handlers_Inl)
next
  assume "iterator self = Some (Closed True)"
  then show "advance n req impl self (Some exc) s =
      Some (if exc = StopIteration then Inr False
            else if isinstance_BubbleException exc then Inl exc
            else Inl (PluginError (plugin self) exc),
            self, record_event (Stepped (plugin self) Finished) s)"
    by (simp add: advance_started status_def step_def isinstance_Generator_def resume_def
        handlers_Inl)
qed

theorem pending_error_injected_or_raised_witness:
  "advance (Suc 0) (\<lambda>_ _. None) (\<lambda>_. Done NotIterable)
     \<lparr>plugin = 0, iterator = Some (Live False one_item)\<rparr>
     (Some (BubbleException ''stop'')) (new_pipeline ()) =
   Some (Inl (BubbleException ''stop''), \<lparr>plugin = 0, iterator = Some (Live False one_item)\<rparr>,
     record_event (Stepped 0 Suspended) (new_pipeline ()))"
proof -
  let ?t = "\<lparr>plugin = 0, iterator = Some (Live False one_item)\<rparr> :: unit Task"
  have h: "iterator ?t = Some (Live False one_item) \<and>
      \<not> isinstance_Generator (Some (Live False (one_item :: unit frame)))"
    by (simp add: isinstance_Generator_def)
  have st: "status ?t = Suspended" by (simp add: status_def)
  have r: "(if BubbleException ''stop'' = StopIteration then Inr False
            else if isinstance_BubbleException (BubbleException ''stop'')
              then Inl (BubbleException ''stop'')
            else Inl (PluginError (plugin ?t) (BubbleException ''stop''))) =
        (Inl (BubbleException ''stop'') :: exn + bool)"
    by simp
  from pending_error_injected_or_raised[where self = ?t and it = "Live False one_item"
      and n = "Suc 0" and req = "\<lambda>_ _. None" and impl = "\<lambda>_. Done NotIterable"
      and exc = "BubbleException ''stop''" and s = "new_pipeline ()"] h
  have "advance (Suc 0) (\<lambda>_ _. None) (\<lambda>_. Done NotIterable) ?t
      (Some (BubbleException ''stop'')) (new_pipeline ()) =
      Some (if BubbleException ''stop'' = StopIteration then Inr False
            else if isinstance_BubbleException (BubbleException ''stop'')
              then Inl (BubbleException ''stop'')
            else Inl (PluginError (plugin ?t) (BubbleException ''stop'')),
            ?t, record_event (Stepped (plugin ?t) (status ?t)) (new_pipeline ()))"
    by blast
  then show ?thesis unfolding r st by simp
qed

text \<open>
  The claim as it is written fails: an exception that is not a \<open>BubbleException\<close>,
  delivered into a task whose iterator is not a generator, comes out wrapped, and a
  \<open>StopIteration\<close> delivered into it does not come out at all.
\<close>

theorem pending_error_reraised_unchanged_counterexample:
  "advance (Suc 0) (\<lambda>_ _. None) (\<lambda>_. Done NotIterable)
     \<lparr>plugin = 0, iterator = Some (Live False one_item)\<rparr>
     (Some (Exception ''boom'')) (new_pipeline ()) =
   Some (Inl (PluginError 0 (Exception ''boom'')),
     \<lparr>plugin = 0, iterator = Some (Live False one_item)\<rparr>,
     record_event (Stepped 0 Suspended) (new_pipeline ())) \<and>
   PluginError 0 (Exception ''boom'') \<noteq> Exception ''boom'' \<and>
   advance (Suc 0) (\<lambda>_ _. None) (\<lambda>_. Done NotIterable)
     \<lparr>plugin = 0, iterator = Some (Live False one_item)\<rparr>
     (Some StopIteration) (new_pipeline ()) =
   Some (Inr False, \<lparr>plugin = 0, iterator = Some (Live False one_item)\<rparr>,
     record_event (Stepped 0 Suspended) (new_pipeline ()))"
  by (simp add: advance_started step_def isinstance_Generator_def handlers_Inl status_def)

section \<open>The stack of suspended tasks\<close>

lemma advance_absorbs:
  assumes "absorbs t"
  shows "advance (Suc m) req impl t e s =
     Some (Inr False, t\<lparr>iterator := Some (Closed True)\<rparr>,
       record_event (Stepped (plugin t) Suspended) s)"
proof -
  from assms obtain k where k: "iterator t = Some (Live True (Frame k))"
    and r: "\<And>r. k r = Raise StopIteration"
    by (auto simp: absorbs_def)
  show ?thesis
    by (cases e)
      (simp_all add: advance_started[OF k] status_def k step_def resume_def r
        isinstance_Generator_def handlers_def)
qed

lemma drain_absorbs:
  "\<forall>t \<in> set (tasks s). absorbs t \<Longrightarrow> length (tasks s) < n \<Longrightarrow>
   \<exists>s'. drain n imp impl e s = Some (if tasks s = [] then e else None, s') \<and>
        tasks s' = [] \<and> ctx s' = ctx s \<and> plugins s' = plugins s"
proof (induction n arbitrary: e s)
  case 0
  then show ?case by simp
next
  case (Suc n)
  show ?case
  proof (cases "tasks s = []")
    case True
    then show ?thesis by simp
  next
    case False
    let ?t = "last (tasks s)"
    let ?s1 = "record_event (Stepped (plugin ?t) Suspended) (s\<lparr>tasks := butlast (tasks s)\<rparr>)"
    from False Suc.prems(2) obtain m where m: "n = Suc m" by (cases n) auto
    from False Suc.prems(1) have "absorbs ?t" by simp
    then have a: "advance n (require n imp impl) impl ?t e (s\<lparr>tasks := butlast (tasks s)\<rparr>) =
        Some (Inr False, ?t\<lparr>iterator := Some (Closed True)\<rparr>, ?s1)"
      unfolding m by (rule advance_absorbs)
    have "\<forall>t \<in> set (tasks ?s1). absorbs t"
      using Suc.prems(1) by (auto dest: in_set_butlastD)
    moreover have "length (tasks ?s1) < n" using Suc.prems(2) False by (cases "tasks s") auto
    ultimately obtain s' where
      "drain n imp impl None ?s1 = Some (if tasks ?s1 = [] then None else None, s') \<and>
        tasks s' = [] \<and> ctx s' = ctx ?s1 \<and> plugins s' = plugins ?s1"
      using Suc.IH[of ?s1 None] by blast
    with False a show ?thesis by simp
  qed
qed

lemma drain_passes_on:
  "isinstance_BubbleException exc \<Longrightarrow> passes_on n imp impl exc s \<Longrightarrow>
   \<exists>s'. drain n imp impl (Some exc) s = Some (Some exc, s') \<and> tasks s' = []"
proof (induction n arbitrary: s)
  case 0
  then show ?case by simp
next
  case (Suc n)
  show ?case
  proof (cases "tasks s = []")
    case True
    then show ?thesis by simp
  next
    case False
    let ?t = "last (tasks s)"
    let ?s1 = "s\<lparr>tasks := butlast (tasks s)\<rparr>"
    let ?s0 = "record_event (Stepped (plugin ?t) (status ?t)) ?s1"
    from Suc.prems(2) False obtain it where it: "iterator ?t = Some it"
      by (cases "iterator ?t") simp_all
    with Suc.prems(2) False
    have c: "case step n (require n imp impl) ?t (Some exc) ?s0 of
          Some (Inl e, _, s') \<Rightarrow> e = exc \<and> passes_on n imp impl exc s'
        | _ \<Rightarrow> False"
      by simp
    then obtain x where x: "step n (require n imp impl) ?t (Some exc) ?s0 = Some x"
      by (cases "step n (require n imp impl) ?t (Some exc) ?s0") simp_all
    obtain r t' s2 where xr: "x = (r, t', s2)" by (cases x)
    from c x xr obtain e where "r = Inl e" by (cases r) simp_all
    with c x xr have st: "step n (require n imp impl) ?t (Some exc) ?s0 = Some (Inl exc, t', s2)"
      and p: "passes_on n imp impl exc s2"
      by simp_all
    from Suc.prems(1) have ne: "exc \<noteq> StopIteration" by auto
    from st Suc.prems(1) ne
    have "advance n (require n imp impl) impl ?t (Some exc) ?s1 = Some (Inl exc, t', s2)"
      by (simp add: advance_started[OF it] handlers_Inl)
    moreover from Suc.prems(1) p obtain s' where
      "drain n imp impl (Some exc) s2 = Some (Some exc, s') \<and> tasks s' = []"
      using Suc.IH by blast
    ultimately show ?thesis using False by simp
  qed
qed

text \<open>
  C4, amended. Whatever the plugin call, \<^verbatim>\<open>next\<close>, \<^verbatim>\<open>throw\<close> or the
  \<^verbatim>\<open>raise\<close> of line 93 raises, other than \<open>StopIteration\<close>: \<open>advance\<close> raises it
  unchanged if it is a \<open>BubbleException\<close>, and otherwise raises a \<open>PluginError\<close> that
  carries the plugin of the task and has the exception as its cause. What \<open>advance\<close>
  raises in \<open>require\<close> leaves \<open>require\<close>. From there, or from the step of the loop
  of \<open>run\<close> that raised it, \<open>run\<close> delivers it to the suspended tasks, and a
  \<open>BubbleException\<close> reaches the caller of \<open>run\<close> unchanged when every task it is
  delivered into passes it on, in particular when there is none: the loop ends with this
  exception pending and an empty stack, and \<open>run\<close> raises what the loop ends with.
\<close>

theorem step_errors_wrapped_unless_bubble:
  "(start n req impl self (record_event (Stepped (plugin self) (status self)) s) =
      Some (Inl exc, t, s') \<and> exc \<noteq> StopIteration \<longrightarrow>
    advance n req impl self exception s =
      Some (Inl (if isinstance_BubbleException exc then exc
                 else PluginError (plugin self) exc), t, s')) \<and>
   (start n req impl self (record_event (Stepped (plugin self) (status self)) s) =
      Some (Inr (), t, s') \<and>
    step n req t exception s' = Some (Inl exc, t', s'') \<and> exc \<noteq> StopIteration \<longrightarrow>
    advance n req impl self exception s =
      Some (Inl (if isinstance_BubbleException exc then exc
                 else PluginError (plugin self) exc), t', s'')) \<and>
   (p \<notin> plugins s \<and>
    advance n (require n imp impl) impl \<lparr>plugin = p, iterator = None\<rparr> None
      (s\<lparr>plugins := insert p (plugins s)\<rparr>) = Some (Inl exc, t, s') \<longrightarrow>
    require (Suc n) imp impl (Callable p # args) s = Some (Some exc, s')) \<and>
   (isinstance_BubbleException exc \<and> passes_on n imp impl exc s \<longrightarrow>
    (\<exists>s2. drain n imp impl (Some exc) s = Some (Some exc, s2) \<and> tasks s2 = [])) \<and>
   (isinstance_BubbleException exc \<and> require n imp impl specs s = Some (Some exc, s') \<and>
    passes_on n imp impl exc s' \<longrightarrow>
    (\<exists>s2. run n imp impl specs s = Some (Some exc, s2) \<and> tasks s2 = [])) \<and>
   (tasks s \<noteq> [] \<and>
    advance n (require n imp impl) impl (last (tasks s)) exception
      (s\<lparr>tasks := butlast (tasks s)\<rparr>) = Some (Inl exc, t, s') \<and>
    passes_on n imp impl exc s' \<longrightarrow>
    (\<exists>s2. drain (Suc n) imp impl exception s = Some (Some exc, s2) \<and> tasks s2 = [])) \<and>
   (require n imp impl specs s0 = Some (exception, s) \<and>
    drain n imp impl exception s = Some (r, s2) \<longrightarrow>
    run n imp impl specs s0 = Some (r, s2))"
proof (intro conjI impI)
  assume "start n req impl self (record_event (Stepped (plugin self) (status self)) s) =
      Some (Inl exc, t, s') \<and> exc \<noteq> StopIteration"
  then show "advance n req impl self exception s =
      Some (Inl (if isinstance_BubbleException exc then exc
                 else PluginError (plugin self) exc), t, s')"
    by (simp add: advance_def handlers_Inl)
next
  assume "start n req impl self (record_event (Stepped (plugin self) (status self)) s) =
      Some (Inr (), t, s') \<and>
    step n req t exception s' = Some (Inl exc, t', s'') \<and> exc \<noteq> StopIteration"
  then show "advance n req impl self exception s =
      Some (Inl (if isinstance_BubbleException exc then exc
                 else PluginError (plugin self) exc), t', s'')"
    by (simp add: advance_def handlers_Inl)
next
  assume "p \<notin> plugins s \<and>
    advance n (require n imp impl) impl \<lparr>plugin = p, iterator = None\<rparr> None
      (s\<lparr>plugins := insert p (plugins s)\<rparr>) = Some (Inl exc, t, s')"
  then show "require (Suc n) imp impl (Callable p # args) s = Some (Some exc, s')"
    by (simp add: require_single del: require.simps)
next
  assume "isinstance_BubbleException exc \<and> passes_on n imp impl exc s"
  then show "\<exists>s2. drain n imp impl (Some exc) s = Some (Some exc, s2) \<and> tasks s2 = []"
    using drain_passes_on by blast
next
  assume a: "isinstance_BubbleException exc \<and> require n imp impl specs s = Some (Some exc, s') \<and>
    passes_on n imp impl exc s'"
  then obtain s2 where "drain n imp impl (Some exc) s' = Some (Some exc, s2) \<and> tasks s2 = []"
    using drain_passes_on by blast
  with a show "\<exists>s2. run n imp impl specs s = Some (Some exc, s2) \<and> tasks s2 = []"
    by (simp add: run_def)
next
  assume a: "tasks s \<noteq> [] \<and>
    advance n (require n imp impl) impl (last (tasks s)) exception
      (s\<lparr>tasks := butlast (tasks s)\<rparr>) = Some (Inl exc, t, s') \<and>
    passes_on n imp impl exc s'"
  then have "isinstance_BubbleException exc" using advance_raises by blast
  with a obtain s2 where "drain n imp impl (Some exc) s' = Some (Some exc, s2) \<and> tasks s2 = []"
    using drain_passes_on by blast
  with a show "\<exists>s2. drain (Suc n) imp impl exception s = Some (Some exc, s2) \<and> tasks s2 = []"
    by simp
next
  assume "require n imp impl specs s0 = Some (exception, s) \<and>
    drain n imp impl exception s = Some (r, s2)"
  then show "run n imp impl specs s0 = Some (r, s2)"
    by (simp add: run_def)
qed

theorem step_errors_wrapped_unless_bubble_witness:
  "\<exists>s2. run 5 no_import passing_impl [Callable 0, Callable 1, Callable 2] (new_pipeline []) =
     Some (Some (BubbleException ''stop''), s2) \<and> tasks s2 = []"
proof -
  let ?exc = "BubbleException ''stop''"
  let ?specs = "[Callable 0, Callable 1, Callable 2]"
  let ?t0 = "\<lparr>plugin = 0, iterator = Some (Live True (after_guarded_yield (\<lambda>log. log @ [''cleanup''])))\<rparr>"
  let ?t1 = "\<lparr>plugin = 1, iterator = Some (Live True (after_yield (\<lambda>log. log @ [''end''])))\<rparr>"
  let ?t2 = "\<lparr>plugin = 2, iterator = Some (Live True (Frame (\<lambda>r. case r of
            Some e \<Rightarrow> uncaught e | None \<Rightarrow> uncaught ?exc)))\<rparr>"
  let ?s = "\<lparr>ctx = [''start''], default_symbol = ''beet_default'', whitelist = None,
      plugins = {2, 1, 0}, tasks = [?t0, ?t1, ?t2],
      trace = [Stepped 0 Unstarted, Called 0, Stepped 1 Unstarted, Called 1,
               Stepped 2 Unstarted, Called 2]\<rparr>"
  let ?s' = "\<lparr>ctx = [''start''], default_symbol = ''beet_default'', whitelist = None,
      plugins = {2, 1, 0}, tasks = [?t0, ?t1],
      trace = [Stepped 0 Unstarted, Called 0, Stepped 1 Unstarted, Called 1,
               Stepped 2 Unstarted, Called 2, Stepped 2 Suspended]\<rparr>"
  have rq: "require 5 no_import passing_impl ?specs (new_pipeline []) = Some (None, ?s)"
    by (simp add: engine_defs passing_impl_def guarded_def two_phase_def failing_late_def
        eval_nat_numeral)
  have adv: "advance 4 (require 4 no_import passing_impl) passing_impl (last (tasks ?s)) None
      (?s\<lparr>tasks := butlast (tasks ?s)\<rparr>) = Some (Inl ?exc, ?t2\<lparr>iterator := Some (Closed True)\<rparr>, ?s')"
    by (simp add: engine_defs uncaught_def eval_nat_numeral del: require.simps)
  have po: "passes_on 4 no_import passing_impl ?exc ?s'"
    by (simp add: engine_defs uncaught_def after_yield_def after_guarded_yield_def
        eval_nat_numeral del: require.simps)
  from adv po have "tasks ?s \<noteq> [] \<and>
    advance 4 (require 4 no_import passing_impl) passing_impl (last (tasks ?s)) None
      (?s\<lparr>tasks := butlast (tasks ?s)\<rparr>) =
      Some (Inl ?exc, ?t2\<lparr>iterator := Some (Closed True)\<rparr>, ?s') \<and>
    passes_on 4 no_import passing_impl ?exc ?s'"
    by simp
  with step_errors_wrapped_unless_bubble[where n = 4 and imp = no_import and impl = passing_impl
      and s = ?s and exception = None and exc = ?exc
      and t = "?t2\<lparr>iterator := Some (Closed True)\<rparr>" and s' = ?s']
  obtain s2 where d: "drain (Suc 4) no_import passing_impl None ?s = Some (Some ?exc, s2)"
    and e: "tasks s2 = []"
    by blast
  from rq d have "require 5 no_import passing_impl ?specs (new_pipeline []) = Some (None, ?s) \<and>
    drain 5 no_import passing_impl None ?s = Some (Some ?exc, s2)"
    by simp
  with step_errors_wrapped_unless_bubble[where n = 5 and imp = no_import and impl = passing_impl
      and specs = ?specs and ?s0.0 = "new_pipeline []" and exception = None and s = ?s
      and r = "Some ?exc" and ?s2.0 = s2]
  have "run 5 no_import passing_impl ?specs (new_pipeline []) = Some (Some ?exc, s2)"
    by blast
  with e show ?thesis by blast
qed

text \<open>
  The claim as it is written fails: the call of plugin 1 raises a \<open>BubbleException\<close>,
  the suspended plugin 0 swallows it, and \<open>run\<close> returns normally.
\<close>

theorem bubble_error_reaches_caller_counterexample:
  "map_option fst
     (advance 1 (require 1 no_import absorbing_impl) absorbing_impl
        \<lparr>plugin = 1, iterator = None\<rparr> None (new_pipeline ())) =
     Some (Inl (BubbleException ''stop'')) \<and>
   map_option fst (run 2 no_import absorbing_impl [Callable 0, Callable 1] (new_pipeline ())) =
     Some None"
  by (simp add: run_def engine_defs absorbing_impl_def swallowing_def swallow_def numeral_2_eq_2)

text \<open>
  C3. The loop of \<open>run\<close>: with an empty stack it ends, and \<open>run\<close> raises the pending
  exception if there is one and returns otherwise. With a task on the stack, the last one
  is popped and stepped with the pending exception; if the step raises, what it raised is
  the pending exception of the next round, whatever was pending before; if it does not,
  nothing is pending in the next round, and the task is pushed back if the step returned
  it. What \<open>require\<close> raised is pending in the first round. If every suspended task
  finishes without raising when it is resumed, \<open>run\<close> returns normally with an empty
  stack, whatever was pending.
\<close>

theorem drain_routes_pending_error:
  "(tasks s = [] \<longrightarrow> drain n imp impl exception s = Some (exception, s)) \<and>
   (tasks s \<noteq> [] \<and>
    advance n (require n imp impl) impl (last (tasks s)) exception
      (s\<lparr>tasks := butlast (tasks s)\<rparr>) = Some (Inl exc, t, s') \<longrightarrow>
    drain (Suc n) imp impl exception s = drain n imp impl (Some exc) s') \<and>
   (tasks s \<noteq> [] \<and>
    advance n (require n imp impl) impl (last (tasks s)) exception
      (s\<lparr>tasks := butlast (tasks s)\<rparr>) = Some (Inr remaining_work, t, s') \<longrightarrow>
    drain (Suc n) imp impl exception s =
      drain n imp impl None (if remaining_work then s'\<lparr>tasks := tasks s' @ [t]\<rparr> else s')) \<and>
   (require n imp impl specs s = Some (exception, s') \<longrightarrow>
    run n imp impl specs s = drain n imp impl exception s') \<and>
   (require n imp impl specs s = Some (exception, s') \<and> tasks s' \<noteq> [] \<and>
    (\<forall>t \<in> set (tasks s'). absorbs t) \<and> length (tasks s') < n \<longrightarrow>
    (\<exists>s''. run n imp impl specs s = Some (None, s'') \<and> tasks s'' = []))"
proof (intro conjI impI)
  assume "tasks s = []"
  then show "drain n imp impl exception s = Some (exception, s)"
    by (cases n) simp_all
next
  assume "tasks s \<noteq> [] \<and>
    advance n (require n imp impl) impl (last (tasks s)) exception
      (s\<lparr>tasks := butlast (tasks s)\<rparr>) = Some (Inl exc, t, s')"
  then show "drain (Suc n) imp impl exception s = drain n imp impl (Some exc) s'"
    by simp
next
  assume "tasks s \<noteq> [] \<and>
    advance n (require n imp impl) impl (last (tasks s)) exception
      (s\<lparr>tasks := butlast (tasks s)\<rparr>) = Some (Inr remaining_work, t, s')"
  then show "drain (Suc n) imp impl exception s =
      drain n imp impl None (if remaining_work then s'\<lparr>tasks := tasks s' @ [t]\<rparr> else s')"
    by simp
next
  assume "require n imp impl specs s = Some (exception, s')"
  then show "run n imp impl specs s = drain n imp impl exception s'"
    by (simp add: run_def)
next
  assume a: "require n imp impl specs s = Some (exception, s') \<and> tasks s' \<noteq> [] \<and>
    (\<forall>t \<in> set (tasks s'). absorbs t) \<and> length (tasks s') < n"
  then obtain s'' where "drain n imp impl exception s' = Some (None, s'') \<and> tasks s'' = []"
    using drain_absorbs[of s' n imp impl exception] by auto
  with a show "\<exists>s''. run n imp impl specs s = Some (None, s'') \<and> tasks s'' = []"
    by (simp add: run_def)
qed

theorem drain_routes_pending_error_witness:
  "\<exists>s''. run 2 no_import absorbing_impl [Callable 0, Callable 1] (new_pipeline ()) =
     Some (None, s'') \<and> tasks s'' = []"
proof -
  let ?s' = "\<lparr>ctx = (), default_symbol = ''beet_default'', whitelist = None,
      plugins = {1, 0}, tasks = [\<lparr>plugin = 0, iterator = Some (Live True swallow)\<rparr>],
      trace = [Stepped 0 Unstarted, Called 0, Stepped 1 Unstarted, Called 1]\<rparr>"
  have "require 2 no_import absorbing_impl [Callable 0, Callable 1] (new_pipeline ()) =
      Some (Some (BubbleException ''stop''), ?s')"
    by (simp add: engine_defs absorbing_impl_def swallowing_def numeral_2_eq_2)
  moreover have "\<forall>t \<in> set (tasks ?s'). absorbs t"
    by (simp add: absorbs_def swallow_def)
  ultimately have "require 2 no_import absorbing_impl [Callable 0, Callable 1] (new_pipeline ()) =
      Some (Some (BubbleException ''stop''), ?s') \<and> tasks ?s' \<noteq> [] \<and>
    (\<forall>t \<in> set (tasks ?s'). absorbs t) \<and> length (tasks ?s') < 2"
    by simp
  with drain_routes_pending_error[where exception = "Some (BubbleException ''stop'')" and n = 2
      and imp = no_import and impl = absorbing_impl and specs = "[Callable 0, Callable 1]"
      and s = "new_pipeline ()" and s' = ?s']
  show ?thesis by blast
qed

text \<open>
  C1. Two different plugins, each a generator function with a phase before its one
  \<^verbatim>\<open>yield\<close> and a phase after it, on a new engine: \<open>run\<close> returns normally, and the
  context has gone through the first phase of the first plugin, the first phase of the
  second, the second phase of the second and the second phase of the first, in this
  order; the trace has the steps in the same order. In the end-to-end example the log is
  "A-start", "B", "A-end". Both hold for every bound of at least 5.
\<close>

theorem run_resumes_in_reverse_order:
  "(p1 \<noteq> p2 \<and> impl p1 = two_phase a1 b1 \<and> impl p2 = two_phase a2 b2 \<and> 5 \<le> n \<longrightarrow>
    run n imp impl [Callable p1, Callable p2] (new_pipeline c) =
      Some (None, (new_pipeline (b1 (b2 (a2 (a1 c)))))
        \<lparr>plugins := {p1, p2},
         trace := [Stepped p1 Unstarted, Called p1, Stepped p2 Unstarted, Called p2,
                   Stepped p2 Suspended, Stepped p1 Suspended]\<rparr>)) \<and>
   (5 \<le> n \<longrightarrow>
    run n imp example_impl [Callable 0, Callable 1] (new_pipeline []) =
      Some (None, (new_pipeline [''A-start'', ''B'', ''A-end''])
        \<lparr>plugins := {0, 1},
         trace := [Stepped 0 Unstarted, Called 0, Stepped 1 Unstarted, Called 1,
                   Stepped 0 Suspended]\<rparr>))"
proof (intro conjI impI)
  assume a: "p1 \<noteq> p2 \<and> impl p1 = two_phase a1 b1 \<and> impl p2 = two_phase a2 b2 \<and> 5 \<le> n"
  then have "5 \<le> n" by simp
  then have "n = Suc (Suc (Suc (Suc (Suc (n - 5)))))" by arith
  then obtain m where n: "n = Suc (Suc (Suc (Suc (Suc m))))" ..
  from a show "run n imp impl [Callable p1, Callable p2] (new_pipeline c) =
      Some (None, (new_pipeline (b1 (b2 (a2 (a1 c)))))
        \<lparr>plugins := {p1, p2},
         trace := [Stepped p1 Unstarted, Called p1, Stepped p2 Unstarted, Called p2,
                   Stepped p2 Suspended, Stepped p1 Suspended]\<rparr>)"
    unfolding n
    by (simp add: run_def engine_defs two_phase_def after_yield_def insert_commute)
next
  assume "5 \<le> n"
  then have "n = Suc (Suc (Suc (Suc (Suc (n - 5)))))" by arith
  then obtain m where n: "n = Suc (Suc (Suc (Suc (Suc m))))" ..
  show "run n imp example_impl [Callable 0, Callable 1] (new_pipeline []) =
     Some (None, (new_pipeline [''A-start'', ''B'', ''A-end''])
       \<lparr>plugins := {0, 1},
        trace := [Stepped 0 Unstarted, Called 0, Stepped 1 Unstarted, Called 1,
                  Stepped 0 Suspended]\<rparr>)"
    unfolding n
    by (simp add: run_def engine_defs example_impl_def two_phase_def after_yield_def plugin_B_def
        insert_commute)
qed

theorem run_resumes_in_reverse_order_witness:
  "run 5 no_import phases_impl [Callable 0, Callable 1] (new_pipeline []) =
     Some (None, (new_pipeline [(0, ''A''), (1, ''A''), (1, ''B''), (0, ''B'')])
       \<lparr>plugins := {0, 1},
        trace := [Stepped 0 Unstarted, Called 0, Stepped 1 Unstarted, Called 1,
                  Stepped 1 Suspended, Stepped 0 Suspended]\<rparr>) \<and>
   run 5 no_import example_impl [Callable 0, Callable 1] (new_pipeline []) =
     Some (None, (new_pipeline [''A-start'', ''B'', ''A-end''])
       \<lparr>plugins := {0, 1},
        trace := [Stepped 0 Unstarted, Called 0, Stepped 1 Unstarted, Called 1,
                  Stepped 0 Suspended]\<rparr>)"
proof -
  have "(0::nat) \<noteq> 1 \<and>
    phases_impl 0 = two_phase (\<lambda>log. log @ [(0, ''A'')]) (\<lambda>log. log @ [(0, ''B'')]) \<and>
    phases_impl 1 = two_phase (\<lambda>log. log @ [(1, ''A'')]) (\<lambda>log. log @ [(1, ''B'')]) \<and>
    (5::nat) \<le> 5"
    by (simp add: phases_impl_def)
  with run_resumes_in_reverse_order[where ?p1.0 = 0 and ?p2.0 = 1 and impl = phases_impl
      and ?a1.0 = "\<lambda>log. log @ [(0, ''A'')]" and ?b1.0 = "\<lambda>log. log @ [(0, ''B'')]"
      and ?a2.0 = "\<lambda>log. log @ [(1, ''A'')]" and ?b2.0 = "\<lambda>log. log @ [(1, ''B'')]"
      and n = 5 and imp = no_import and c = "[]"]
  have "run 5 no_import phases_impl [Callable 0, Callable 1] (new_pipeline []) =
      Some (None, (new_pipeline (((([] @ [(0, ''A'')]) @ [(1, ''A'')]) @ [(1, ''B'')]) @ [(0, ''B'')]))
        \<lparr>plugins := {0, 1},
         trace := [Stepped 0 Unstarted, Called 0, Stepped 1 Unstarted, Called 1,
                   Stepped 1 Suspended, Stepped 0 Suspended]\<rparr>) \<and>
    run 5 no_import example_impl [Callable 0, Callable 1] (new_pipeline []) =
     Some (None, (new_pipeline [''A-start'', ''B'', ''A-end''])
       \<lparr>plugins := {0, 1},
        trace := [Stepped 0 Unstarted, Called 0, Stepped 1 Unstarted, Called 1,
                  Stepped 0 Suspended]\<rparr>)"
    by blast
  then show ?thesis by simp
qed

section \<open>Activation\<close>

lemma lifetime_sound:
  "sound s \<Longrightarrow> lifetime n imp impl reqs s = Some s' \<Longrightarrow> sound s'"
proof (induction reqs arbitrary: s)
  case Nil
  then show ?case by simp
next
  case (Cons req reqs)
  show ?case
  proof (cases req)
    case (Activate specs)
    with Cons.prems obtain r s1 where r: "require n imp impl specs s = Some (r, s1)"
      and l: "lifetime n imp impl reqs s1 = Some s'"
      by (auto split: option.splits)
    from Cons.prems(1) r have "sound s1" by (rule require_sound)
    then show ?thesis using l by (rule Cons.IH)
  next
    case (Run specs)
    with Cons.prems obtain r s1 where r: "run n imp impl specs s = Some (r, s1)"
      and l: "lifetime n imp impl reqs s1 = Some s'"
      by (auto split: option.splits)
    from Cons.prems(1) r have "sound s1" by (rule run_sound)
    then show ?thesis using l by (rule Cons.IH)
  qed
qed

lemma resolve_extends: "extends s s' \<Longrightarrow> resolve imp s' sp = resolve imp s sp"
  by (cases sp) (simp_all add: resolve_def extends_def)

lemma require_loop_append:
  "require_loop adv imp (xs @ ys) s =
     (case require_loop adv imp xs s of
        None \<Rightarrow> None
      | Some (Some exc, s') \<Rightarrow> Some (Some exc, s')
      | Some (None, s') \<Rightarrow> require_loop adv imp ys s')"
proof (induction xs arbitrary: s)
  case Nil
  show ?case by simp
next
  case (Cons sp xs)
  show ?case
  proof (cases "resolve imp s sp")
    case (Inl exc)
    then show ?thesis by simp
  next
    case (Inr p)
    show ?thesis
    proof (cases "p \<in> plugins s")
      case True
      with Inr Cons.IH show ?thesis by simp
    next
      case False
      show ?thesis
      proof (cases "adv \<lparr>plugin = p, iterator = None\<rparr> None (s\<lparr>plugins := insert p (plugins s)\<rparr>)")
        case None
        with Inr False show ?thesis by simp
      next
        case (Some x)
        obtain r t s1 where x: "x = (r, t, s1)" by (cases x)
        show ?thesis
        proof (cases r)
          case (Inl exc)
          with Inr False Some x show ?thesis by simp
        next
          case (Inr b)
          with \<open>resolve imp s sp = Inr p\<close> False Some x Cons.IH show ?thesis by simp
        qed
      qed
    qed
  qed
qed

lemma require_append:
  "require n imp impl (xs @ ys) s =
     (case require n imp impl xs s of
        None \<Rightarrow> None
      | Some (Some exc, s') \<Rightarrow> Some (Some exc, s')
      | Some (None, s') \<Rightarrow> require n imp impl ys s')"
proof (cases n)
  case 0
  then show ?thesis by simp
next
  case (Suc m)
  show ?thesis unfolding Suc require.simps by (rule require_loop_append)
qed

lemma require_activates:
  "require n imp impl xs s = Some (None, s') \<Longrightarrow> sp \<in> set xs \<Longrightarrow>
   \<exists>p. resolve imp s sp = Inr p \<and> p \<in> plugins s'"
proof (induction xs arbitrary: s)
  case Nil
  then show ?case by simp
next
  case (Cons x xs)
  from Cons.prems(1) obtain m where n: "n = Suc m" by (cases n) auto
  have app: "require n imp impl (x # xs) s =
     (case require n imp impl [x] s of
        None \<Rightarrow> None
      | Some (Some exc, s') \<Rightarrow> Some (Some exc, s')
      | Some (None, s') \<Rightarrow> require n imp impl xs s')"
    using require_append[of n imp impl "[x]" xs s] by simp
  with Cons.prems(1) obtain s1 where x: "require n imp impl [x] s = Some (None, s1)"
    and xs: "require n imp impl xs s1 = Some (None, s')"
    by (auto split: option.splits)
  from x have e1: "extends s s1" by (rule require_extends)
  from xs have e2: "extends s1 s'" by (rule require_extends)
  show ?case
  proof (cases "sp = x")
    case True
    from x obtain p where p: "resolve imp s x = Inr p"
      unfolding n by (cases "resolve imp s x") (auto simp: require_Cons simp del: require.simps)
    have "p \<in> plugins s1"
    proof (cases "p \<in> plugins s")
      case True
      with e1 show ?thesis by (auto simp: extends_def)
    next
      case False
      with x p obtain r t s2 where
        a: "advance m (require m imp impl) impl \<lparr>plugin = p, iterator = None\<rparr> None
              (s\<lparr>plugins := insert p (plugins s)\<rparr>) = Some (r, t, s2)"
        and s1: "s1 = s2 \<or> s1 = s2\<lparr>tasks := tasks s2 @ [t]\<rparr>"
        unfolding n
        by (auto simp: require_Cons require_Nil simp del: require.simps
            split: option.splits sum.splits if_splits)
      have "extends (s\<lparr>plugins := insert p (plugins s)\<rparr>) s2"
        using require_extends a by (rule advance_extends)
      then have "p \<in> plugins s2" by (auto simp: extends_def)
      with s1 show ?thesis by auto
    qed
    with e2 have "p \<in> plugins s'" by (auto simp: extends_def)
    with p True show ?thesis by simp
  next
    case False
    with Cons.prems(2) have "sp \<in> set xs" by simp
    with xs obtain p where "resolve imp s1 sp = Inr p \<and> p \<in> plugins s'"
      using Cons.IH by blast
    with e1 show ?thesis by (simp add: resolve_extends)
  qed
qed

lemma extends_calls: "extends s s' \<Longrightarrow> set (calls (trace s)) \<subseteq> set (calls (trace s'))"
  by (auto simp: extends_def)

lemma count_list_distinct: "distinct xs \<Longrightarrow> x \<in> set xs \<Longrightarrow> count_list xs x = 1"
  by (induction xs) (auto simp: count_list_0_iff)

lemma step_returns_suspended:
  assumes "step n req t e s = Some (Inr (), t', s')"
  shows "status t' = Suspended"
proof -
  from assms have r: "resume n req t e s = Some (Inr (), t', s')"
    by (cases e) (auto simp: step_def split: if_splits)
  then obtain it where it: "iterator t = Some it"
    by (cases "iterator t") (simp_all add: resume_def)
  show ?thesis
  proof (cases it)
    case (Closed g)
    with r it show ?thesis by (simp add: resume_def)
  next
    case (Live g f)
    obtain k where "f = Frame k" by (cases f)
    with r it Live show ?thesis
      by (auto simp: resume_def status_def split: option.splits sum.splits)
  qed
qed

lemma advance_returns_suspended:
  assumes "advance n req impl t e s = Some (Inr True, t', s')"
  shows "status t' = Suspended"
proof -
  from assms obtain x t1 s1 where
    st: "start n req impl t (record_event (Stepped (plugin t) (status t)) s) = Some (x, t1, s1)"
    by (auto simp: advance_def split: option.splits)
  show ?thesis
  proof (cases x)
    case (Inl exc)
    with assms st show ?thesis
      by (auto simp: advance_def handlers_Inl split: if_splits)
  next
    case (Inr u)
    with assms st obtain y where y: "step n req t1 e s1 = Some (y, t', s')"
      and "handlers (plugin t) y = Inr True"
      by (auto simp: advance_def split: option.splits)
    then have "y = Inr ()" by (simp add: handlers_True)
    with y show ?thesis by (simp add: step_returns_suspended)
  qed
qed

lemma advance_calls:
  assumes req: "\<And>specs s r s'. req specs s = Some (r, s') \<Longrightarrow> extends s s'"
    and new: "iterator t = None"
    and a: "advance n req impl t e s = Some (r, t', s')"
  shows "plugin t \<in> set (calls (trace s'))"
proof -
  let ?s0 = "record_event (Called (plugin t)) (record_event (Stepped (plugin t) Unstarted) s)"
  from a new obtain x s1 where e: "exec n req (impl (plugin t)) ?s0 = Some (x, s1)"
    by (auto simp: advance_unstarted split: option.splits)
  from req e have "extends ?s0 s1" by (rule exec_extends)
  then have s1: "plugin t \<in> set (calls (trace s1))"
    using extends_calls by fastforce
  show ?thesis
  proof (cases x)
    case (Inl exc)
    with a new e s1 show ?thesis by (simp add: advance_unstarted)
  next
    case (Inr res)
    with a new e obtain y where
      "step n req (t\<lparr>iterator := Some (iter res)\<rparr>) e s1 = Some (y, t', s')"
      by (auto simp: advance_unstarted split: option.splits)
    with req have "extends s1 s'" by (rule step_extends)
    with s1 show ?thesis using extends_calls by blast
  qed
qed

lemma require_known:
  "resolve imp s sp = Inr p \<Longrightarrow> p \<in> plugins s \<Longrightarrow>
   require (Suc n) imp impl (sp # args) s = require (Suc n) imp impl args s"
  by (simp add: require_Cons del: require.simps)

text \<open>
  C8. If \<open>require\<close> went through the specs \<open>pre\<close> without raising and raises at a later
  spec, the call on the whole list raises that exception and leaves the state of the
  failure: \<open>plugins\<close> still has all it had before the failure, among them the plugin of
  every spec of \<open>pre\<close>. A plugin whose first step raises has been added before the step:
  it is in \<open>plugins\<close> too.
\<close>

theorem partial_activation_is_kept:
  "(require n imp impl pre s = Some (None, s1) \<and>
    require n imp impl (sp # post) s1 = Some (Some exc, s2) \<longrightarrow>
    require n imp impl (pre @ sp # post) s = Some (Some exc, s2) \<and>
    plugins s \<subseteq> plugins s1 \<and> plugins s1 \<subseteq> plugins s2 \<and>
    (\<forall>x \<in> set pre. \<exists>p. resolve imp s x = Inr p \<and> p \<in> plugins s2)) \<and>
   (p \<notin> plugins s \<and>
    advance n (require n imp impl) impl \<lparr>plugin = p, iterator = None\<rparr> None
      (s\<lparr>plugins := insert p (plugins s)\<rparr>) = Some (Inl exc, t, s') \<longrightarrow>
    require (Suc n) imp impl (Callable p # post) s = Some (Some exc, s') \<and> p \<in> plugins s')"
proof (intro conjI impI ballI)
  assume a: "require n imp impl pre s = Some (None, s1) \<and>
    require n imp impl (sp # post) s1 = Some (Some exc, s2)"
  then show "require n imp impl (pre @ sp # post) s = Some (Some exc, s2)"
    by (simp add: require_append)
  from a have e1: "extends s s1" and e2: "extends s1 s2"
    by (auto dest: require_extends)
  from e1 show "plugins s \<subseteq> plugins s1" by (simp add: extends_def)
  from e2 show "plugins s1 \<subseteq> plugins s2" by (simp add: extends_def)
  fix x assume "x \<in> set pre"
  with a obtain q where "resolve imp s x = Inr q" "q \<in> plugins s1"
    using require_activates by blast
  with e2 show "\<exists>p. resolve imp s x = Inr p \<and> p \<in> plugins s2"
    by (auto simp: extends_def)
next
  assume a: "p \<notin> plugins s \<and>
    advance n (require n imp impl) impl \<lparr>plugin = p, iterator = None\<rparr> None
      (s\<lparr>plugins := insert p (plugins s)\<rparr>) = Some (Inl exc, t, s')"
  then show "require (Suc n) imp impl (Callable p # post) s = Some (Some exc, s')"
    by (simp add: require_single del: require.simps)
  from a have "advance n (require n imp impl) impl \<lparr>plugin = p, iterator = None\<rparr> None
      (s\<lparr>plugins := insert p (plugins s)\<rparr>) = Some (Inl exc, t, s')" ..
  with require_extends have "extends (s\<lparr>plugins := insert p (plugins s)\<rparr>) s'"
    by (rule advance_extends)
  then show "p \<in> plugins s'" by (auto simp: extends_def)
qed

theorem partial_activation_is_kept_witness:
  "require 3 no_import (\<lambda>_. plugin_B) [Callable 1, Dotted ''bad.module:fn'', Callable 2]
     (new_pipeline []) =
   Some (Some (PluginImportError (Dotted ''bad.module:fn'') (Exception ''ModuleNotFoundError'')),
     \<lparr>ctx = [''B''], default_symbol = ''beet_default'', whitelist = None,
      plugins = {1}, tasks = [], trace = [Stepped 1 Unstarted, Called 1]\<rparr>)"
proof -
  let ?s1 = "\<lparr>ctx = [''B''], default_symbol = ''beet_default'', whitelist = None,
      plugins = {1}, tasks = [], trace = [Stepped 1 Unstarted, Called 1]\<rparr>"
  let ?exc = "PluginImportError (Dotted ''bad.module:fn'') (Exception ''ModuleNotFoundError'')"
  have "require 3 no_import (\<lambda>_. plugin_B) [Callable 1] (new_pipeline []) = Some (None, ?s1)"
    by (simp add: engine_defs plugin_B_def numeral_3_eq_3)
  moreover have "require 3 no_import (\<lambda>_. plugin_B) [Dotted ''bad.module:fn'', Callable 2] ?s1 =
      Some (Some ?exc, ?s1)"
    by (simp add: resolve_def no_import_def numeral_3_eq_3)
  ultimately have "require 3 no_import (\<lambda>_. plugin_B)
      ([Callable 1] @ Dotted ''bad.module:fn'' # [Callable 2]) (new_pipeline []) =
      Some (Some ?exc, ?s1)"
    using partial_activation_is_kept[where n = 3 and imp = no_import and impl = "\<lambda>_. plugin_B"
        and pre = "[Callable 1]" and s = "new_pipeline []" and ?s1.0 = ?s1
        and sp = "Dotted ''bad.module:fn''" and post = "[Callable 2]" and exc = ?exc
        and ?s2.0 = ?s1]
    by blast
  then show ?thesis by simp
qed

text \<open>
  C2. After any sequence of calls of \<open>require\<close> and \<open>run\<close> on a new engine, no plugin was
  called twice: the calls \<open>self.plugin(ctx)\<close> in the trace, those made inside plugin code
  included, are distinct. A spec that resolves to a plugin already in \<open>plugins\<close> is
  skipped. Requiring a callable and then a spec that resolves to it, the callable itself
  or a path, gives what requiring the callable alone gives, and the plugin was called
  exactly once.
\<close>

theorem plugins_are_called_once:
  "(lifetime n imp impl reqs (new_pipeline c) = Some s \<longrightarrow> distinct (calls (trace s))) \<and>
   (resolve imp s sp = Inr p \<and> p \<in> plugins s \<longrightarrow>
    require (Suc n) imp impl (sp # args) s = require (Suc n) imp impl args s) \<and>
   (resolve imp (new_pipeline c) sp = Inr p \<and>
    require (Suc n) imp impl [Callable p, sp] (new_pipeline c) = Some (r, s) \<longrightarrow>
    require (Suc n) imp impl [Callable p] (new_pipeline c) = Some (r, s) \<and>
    count_list (calls (trace s)) p = 1)"
proof (intro conjI impI)
  assume "lifetime n imp impl reqs (new_pipeline c) = Some s"
  with sound_new have "sound s" by (rule lifetime_sound)
  then show "distinct (calls (trace s))" by (simp add: sound_def)
next
  assume "resolve imp s sp = Inr p \<and> p \<in> plugins s"
  then show "require (Suc n) imp impl (sp # args) s = require (Suc n) imp impl args s"
    by (simp add: require_known del: require.simps)
next
  let ?s0 = "new_pipeline c"
  assume a: "resolve imp ?s0 sp = Inr p \<and>
    require (Suc n) imp impl [Callable p, sp] ?s0 = Some (r, s)"
  have app: "require (Suc n) imp impl [Callable p, sp] ?s0 =
     (case require (Suc n) imp impl [Callable p] ?s0 of
        None \<Rightarrow> None
      | Some (Some exc, s') \<Rightarrow> Some (Some exc, s')
      | Some (None, s') \<Rightarrow> require (Suc n) imp impl [sp] s')"
    using require_append[of "Suc n" imp impl "[Callable p]" "[sp]" ?s0] by simp
  with a obtain r1 s1 where one: "require (Suc n) imp impl [Callable p] ?s0 = Some (r1, s1)"
    by (cases "require (Suc n) imp impl [Callable p] ?s0") auto
  have same: "r = r1 \<and> s = s1"
  proof (cases r1)
    case (Some exc)
    with a app one show ?thesis by simp
  next
    case None
    from one have e: "extends ?s0 s1" by (rule require_extends)
    from one None obtain q where "resolve imp ?s0 (Callable p) = Inr q" "q \<in> plugins s1"
      using require_activates[of "Suc n" imp impl "[Callable p]" ?s0 s1 "Callable p"] by auto
    then have "p \<in> plugins s1" by (simp add: resolve_def)
    moreover from a e have "resolve imp s1 sp = Inr p" by (simp add: resolve_extends)
    ultimately have "require (Suc n) imp impl [sp] s1 = Some (None, s1)"
      by (simp add: require_known require_Nil del: require.simps)
    with a app one None show ?thesis by simp
  qed
  with one show "require (Suc n) imp impl [Callable p] ?s0 = Some (r, s)" by simp
  from sound_new one have "sound s1" by (rule require_sound)
  then have d: "distinct (calls (trace s1))" by (simp add: sound_def)
  have "p \<notin> plugins ?s0" by (simp add: new_pipeline_def)
  with one obtain x t s2 where
    adv: "advance n (require n imp impl) impl \<lparr>plugin = p, iterator = None\<rparr> None
        (?s0\<lparr>plugins := insert p (plugins ?s0)\<rparr>) = Some (x, t, s2)"
    and s1: "extends s2 s1"
    by (auto simp: require_single require_Nil extends_def simp del: require.simps
        split: option.splits sum.splits if_splits)
  have "p \<in> set (calls (trace s2))"
    using advance_calls[OF require_extends _ adv] by simp
  with s1 have "p \<in> set (calls (trace s1))" using extends_calls by fastforce
  with d same show "count_list (calls (trace s)) p = 1" by (simp add: count_list_distinct)
qed

theorem plugins_are_called_once_witness:
  "lifetime 4 one_import nesting_impl
     [Activate [Callable 0, Dotted ''plugins.b''], Run [Callable 1, Callable 0]] (new_pipeline []) =
   Some \<lparr>ctx = [''B'', ''A''], default_symbol = ''beet_default'', whitelist = None,
      plugins = {1, 0}, tasks = [],
      trace = [Stepped 0 Unstarted, Called 0, Stepped 1 Unstarted, Called 1]\<rparr> \<and>
   distinct (calls [Stepped 0 Unstarted, Called 0, Stepped 1 Unstarted, Called 1])"
proof -
  let ?s = "\<lparr>ctx = [''B'', ''A''], default_symbol = ''beet_default'', whitelist = None,
      plugins = {1, 0}, tasks = [],
      trace = [Stepped 0 Unstarted, Called 0, Stepped 1 Unstarted, Called 1]\<rparr>"
  have h: "lifetime 4 one_import nesting_impl
     [Activate [Callable 0, Dotted ''plugins.b''], Run [Callable 1, Callable 0]] (new_pipeline []) =
     Some ?s"
    by (simp add: run_def engine_defs nesting_impl_def one_import_def plugin_B_def
        eval_nat_numeral)
  with plugins_are_called_once[where n = 4 and imp = one_import and impl = nesting_impl
      and reqs = "[Activate [Callable 0, Dotted ''plugins.b''], Run [Callable 1, Callable 0]]"
      and c = "[]" and s = ?s]
  have "distinct (calls (trace ?s))" by blast
  then have "distinct (calls [Stepped 0 Unstarted, Called 0, Stepped 1 Unstarted, Called 1])"
    by (simp only: GenericPipeline.simps)
  with h show ?thesis by (rule conjI)
qed

text \<open>
  C9. After any sequence of calls of \<open>require\<close> and \<open>run\<close> on a new engine, every task on
  the stack is suspended, and no call of \<open>advance\<close> so far was on a finished task. A task
  that \<open>advance\<close> returns, the only kind that is pushed, is suspended. The invariant
  \<open>sound\<close> is kept by \<open>require\<close> and by the loop of \<open>run\<close> from any state that has it, so
  it holds in every round of the loop and in every nested call.
\<close>

theorem pending_tasks_are_suspended:
  "(lifetime n imp impl reqs (new_pipeline c) = Some s \<longrightarrow>
    (\<forall>t \<in> set (tasks s). status t = Suspended) \<and> Finished \<notin> set (stepped (trace s))) \<and>
   (advance n req impl t e s = Some (Inr True, t', s') \<longrightarrow> status t' = Suspended) \<and>
   (sound s \<and> require n imp impl specs s = Some (r, s') \<longrightarrow> sound s') \<and>
   (sound s \<and> drain n imp impl e s = Some (r, s') \<longrightarrow> sound s')"
proof (intro conjI impI)
  assume "lifetime n imp impl reqs (new_pipeline c) = Some s"
  with sound_new have "sound s" by (rule lifetime_sound)
  then show "\<forall>t \<in> set (tasks s). status t = Suspended"
    and "Finished \<notin> set (stepped (trace s))"
    by (simp_all add: sound_def)
next
  assume "advance n req impl t e s = Some (Inr True, t', s')"
  then show "status t' = Suspended" by (rule advance_returns_suspended)
next
  assume "sound s \<and> require n imp impl specs s = Some (r, s')"
  then show "sound s'" using require_sound by blast
next
  assume "sound s \<and> drain n imp impl e s = Some (r, s')"
  then show "sound s'" using drain_sound by blast
qed

theorem pending_tasks_are_suspended_witness:
  "lifetime 3 no_import example_impl [Activate [Callable 0, Callable 0]] (new_pipeline []) =
   Some \<lparr>ctx = [''A-start''], default_symbol = ''beet_default'', whitelist = None,
      plugins = {0},
      tasks = [\<lparr>plugin = 0, iterator = Some (Live True (after_yield (\<lambda>log. log @ [''A-end''])))\<rparr>],
      trace = [Stepped 0 Unstarted, Called 0]\<rparr> \<and>
   status \<lparr>plugin = 0, iterator = Some (Live True (after_yield (\<lambda>log. log @ [''A-end''])))\<rparr> =
     Suspended \<and>
   Finished \<notin> set (stepped [Stepped 0 Unstarted, Called 0])"
proof -
  let ?t = "\<lparr>plugin = 0, iterator = Some (Live True (after_yield (\<lambda>log. log @ [''A-end''])))\<rparr>"
  let ?s = "\<lparr>ctx = [''A-start''], default_symbol = ''beet_default'', whitelist = None,
      plugins = {0}, tasks = [?t], trace = [Stepped 0 Unstarted, Called 0]\<rparr>"
  have h: "lifetime 3 no_import example_impl [Activate [Callable 0, Callable 0]]
      (new_pipeline []) = Some ?s"
    by (simp add: engine_defs example_impl_def two_phase_def eval_nat_numeral)
  with pending_tasks_are_suspended[where n = 3 and imp = no_import and impl = example_impl
      and reqs = "[Activate [Callable 0, Callable 0]]" and c = "[]" and s = ?s]
  have "(\<forall>t \<in> set (tasks ?s). status t = Suspended) \<and> Finished \<notin> set (stepped (trace ?s))"
    by blast
  then have "status ?t = Suspended \<and> Finished \<notin> set (stepped [Stepped 0 Unstarted, Called 0])"
    by simp
  with h show ?thesis by (rule conjI)
qed

end
